theory Spec2Isabelle
  imports Main
begin

section \<open>Regex to NFA to DFA: the automata engine of lexican.py\<close>

text \<open>
  The development embeds \<^verbatim>\<open>regex_to_nfa\<close> (with its nested \<^verbatim>\<open>to_postfix\<close> and
  \<^verbatim>\<open>build_nfa\<close>; the copy in re_nfa.py is textually the same), \<^verbatim>\<open>epsilon_closure\<close>,
  \<^verbatim>\<open>move\<close>, \<^verbatim>\<open>nfa_to_dfa\<close> and \<^verbatim>\<open>extract_alphabet\<close> of lexican.py.

  Conventions. A Python list used as a stack (\<^verbatim>\<open>append\<close>/\<^verbatim>\<open>pop\<close> at its end) is a HOL list
  whose head is the top of the stack. A Python list that is only appended to and read in
  order (\<^verbatim>\<open>output\<close>) is a HOL list in the same order. Objects live in an arena (a list)
  and a reference to an object is its position in the arena. The only exception the
  embedded code can raise is the \<^verbatim>\<open>IndexError\<close> of \<^verbatim>\<open>list.pop()\<close> on an empty list.
\<close>

subsection \<open>Errors and characters\<close>

datatype error = IndexError

text \<open>
  \<^verbatim>\<open>str.isalnum\<close> on one character. A character of the model is a code point from U+0000
  to U+00FF. Python's \<^verbatim>\<open>c.isalnum()\<close> holds when \<^verbatim>\<open>c\<close> is a letter, a decimal, a digit or
  a numeric character of Unicode; on these code points that is the ASCII digits and
  letters, the letters U+00AA, U+00B5 and U+00BA, the superscript digits U+00B2, U+00B3 and
  U+00B9, the fractions U+00BC to U+00BE, and the letters U+00C0 to U+00FF other than the
  signs U+00D7 and U+00F7.
\<close>

definition isalnum :: "char \<Rightarrow> bool" where
  "isalnum c \<longleftrightarrow>
     (let n = (of_char c :: nat) in
      (48 \<le> n \<and> n \<le> 57) \<or> (65 \<le> n \<and> n \<le> 90) \<or> (97 \<le> n \<and> n \<le> 122) \<or>
      n = 170 \<or> (178 \<le> n \<and> n \<le> 179) \<or> n = 181 \<or> (185 \<le> n \<and> n \<le> 186) \<or>
      (188 \<le> n \<and> n \<le> 190) \<or> (192 \<le> n \<and> n \<le> 214) \<or> (216 \<le> n \<and> n \<le> 246) \<or>
      (248 \<le> n \<and> n \<le> 255))"

subsection \<open>to_postfix: the shunting-yard conversion\<close>

text \<open>\<^verbatim>\<open>precedence = {'*': 3, '.': 2, '|': 1}\<close>\<close>

definition precedence :: "char \<rightharpoonup> nat" where
  "precedence = [CHR ''*'' \<mapsto> 3, CHR ''.'' \<mapsto> 2, CHR ''|'' \<mapsto> 1]"

text \<open>\<^verbatim>\<open>precedence.get(x, 0)\<close>\<close>

definition precedence_get :: "char \<Rightarrow> nat" where
  "precedence_get x = (case precedence x of None \<Rightarrow> 0 | Some n \<Rightarrow> n)"

text \<open>
  \<^verbatim>\<open>while stack and precedence.get(stack[-1], 0) >= n: output.append(stack.pop())\<close>
\<close>

fun drain :: "nat \<Rightarrow> string \<Rightarrow> string \<Rightarrow> string \<times> string" where
  "drain n output [] = (output, [])"
| "drain n output (x # stack) =
     (if precedence_get x \<ge> n then drain n (output @ [x]) stack else (output, x # stack))"

text \<open>
  \<^verbatim>\<open>while stack and stack[-1] != '(': output.append(stack.pop())\<close>
\<close>

fun drain_group :: "string \<Rightarrow> string \<Rightarrow> string \<times> string" where
  "drain_group output [] = (output, [])"
| "drain_group output (x # stack) =
     (if x \<noteq> CHR ''('' then drain_group (output @ [x]) stack else (output, x # stack))"

text \<open>
  \<^verbatim>\<open>prev and (prev.isalnum() or prev == ')' or prev == '*')\<close>: \<^verbatim>\<open>prev\<close> is \<^verbatim>\<open>None\<close> before
  the first character and a one-character string (truthy) afterwards.
\<close>

definition joins :: "char option \<Rightarrow> bool" where
  "joins prev = (case prev of None \<Rightarrow> False
     | Some p \<Rightarrow> isalnum p \<or> p = CHR '')'' \<or> p = CHR ''*'')"

type_synonym pf_state = "string \<times> string \<times> char option"

text \<open>
  One iteration of \<^verbatim>\<open>for c in regex\<close> on the locals (output, stack, prev). In the branch
  \<^verbatim>\<open>c in precedence\<close> the key is present, so \<^verbatim>\<open>precedence[c]\<close> is \<open>precedence_get c\<close>.
\<close>

fun pf_step :: "pf_state \<Rightarrow> char \<Rightarrow> error + pf_state" where
  "pf_step (output, stack, prev) c =
    (if isalnum c then
       (if joins prev then
          (case drain 2 output stack of (output', stack') \<Rightarrow>
             Inr (output' @ [c], CHR ''.'' # stack', Some c))
        else Inr (output @ [c], stack, Some c))
     else if c = CHR ''('' then
       (if joins prev then
          (case drain 2 output stack of (output', stack') \<Rightarrow>
             Inr (output', c # CHR ''.'' # stack', Some c))
        else Inr (output, c # stack, Some c))
     else if c = CHR '')'' then
       (case drain_group output stack of (output', stack') \<Rightarrow>
          (case stack' of [] \<Rightarrow> Inl IndexError
           | x # stack'' \<Rightarrow> Inr (output', stack'', Some c)))
     else if c \<in> dom precedence then
       (case drain (precedence_get c) output stack of (output', stack') \<Rightarrow>
          Inr (output', c # stack', Some c))
     else Inr (output, stack, Some c))"

fun pf_loop :: "pf_state \<Rightarrow> string \<Rightarrow> error + pf_state" where
  "pf_loop st [] = Inr st"
| "pf_loop st (c # cs) = (case pf_step st c of Inl e \<Rightarrow> Inl e | Inr st' \<Rightarrow> pf_loop st' cs)"

text \<open>
  After the loop, \<^verbatim>\<open>while stack: output.append(stack.pop())\<close> moves the whole stack, top
  first, to the output.
\<close>

definition to_postfix :: "string \<Rightarrow> error + string" where
  "to_postfix regex =
     (case pf_loop ([], [], None) regex of
        Inl e \<Rightarrow> Inl e
      | Inr (output, stack, prev) \<Rightarrow> Inr (output @ stack))"

subsection \<open>The NFA graph\<close>

text \<open>
  \<^verbatim>\<open>class State\<close>: the identifier, the dict from a symbol to a list of states, and the list
  of epsilon successors. \<^verbatim>\<open>class NFA\<close>: a (start, accept) pair of references.
\<close>

record state =
  sid :: nat
  edges :: "char \<rightharpoonup> nat list"
  epsilon :: "nat list"

record nfa =
  start :: nat
  accept :: nat

type_synonym heap = "state list"

text \<open>
  \<^verbatim>\<open>State()\<close>: the new object takes the class counter \<^verbatim>\<open>State._id_counter\<close> as its id and
  the counter is incremented. The arena holds the objects allocated by one call of
  \<^verbatim>\<open>regex_to_nfa\<close>; the counter is the class attribute, which outlives the call.
\<close>

definition new_State :: "heap \<Rightarrow> nat \<Rightarrow> nat \<times> heap \<times> nat" where
  "new_State h counter =
     (length h, h @ [\<lparr>sid = counter, edges = Map.empty, epsilon = []\<rparr>], counter + 1)"

text \<open>\<^verbatim>\<open>q.epsilon.extend(ts)\<close> (and \<^verbatim>\<open>append\<close>, with a one-element list)\<close>

definition extend_epsilon :: "heap \<Rightarrow> nat \<Rightarrow> nat list \<Rightarrow> heap" where
  "extend_epsilon h q ts = h[q := (h ! q)\<lparr>epsilon := epsilon (h ! q) @ ts\<rparr>]"

text \<open>\<^verbatim>\<open>q.edges[c] = ts\<close>\<close>

definition set_edge :: "heap \<Rightarrow> nat \<Rightarrow> char \<Rightarrow> nat list \<Rightarrow> heap" where
  "set_edge h q c ts = h[q := (h ! q)\<lparr>edges := (edges (h ! q))(c \<mapsto> ts)\<rparr>]"

subsection \<open>build_nfa: Thompson's construction over the postfix string\<close>

type_synonym bn_state = "nfa list \<times> heap \<times> nat"

text \<open>
  One iteration of \<^verbatim>\<open>for c in postfix\<close> on the fragment stack, the arena and the class
  counter. A token that is no literal and none of \<^verbatim>\<open>. | *\<close> matches no branch.
\<close>

fun bn_step :: "bn_state \<Rightarrow> char \<Rightarrow> error + bn_state" where
  "bn_step (stack, h, k) c =
    (if isalnum c then
       (case new_State h k of (s1, h1, k1) \<Rightarrow>
        case new_State h1 k1 of (s2, h2, k2) \<Rightarrow>
          Inr (\<lparr>start = s1, accept = s2\<rparr> # stack, set_edge h2 s1 c [s2], k2))
     else if c = CHR ''.'' then
       (case stack of
          nfa2 # nfa1 # rest \<Rightarrow>
            Inr (\<lparr>start = start nfa1, accept = accept nfa2\<rparr> # rest,
                 extend_epsilon h (accept nfa1) [start nfa2], k)
        | _ \<Rightarrow> Inl IndexError)
     else if c = CHR ''|'' then
       (case stack of
          nfa2 # nfa1 # rest \<Rightarrow>
            (case new_State h k of (s, h1, k1) \<Rightarrow>
             case new_State h1 k1 of (a, h2, k2) \<Rightarrow>
               Inr (\<lparr>start = s, accept = a\<rparr> # rest,
                    extend_epsilon
                      (extend_epsilon
                        (extend_epsilon h2 s [start nfa1, start nfa2])
                        (accept nfa1) [a])
                      (accept nfa2) [a],
                    k2))
        | _ \<Rightarrow> Inl IndexError)
     else if c = CHR ''*'' then
       (case stack of
          nfa1 # rest \<Rightarrow>
            (case new_State h k of (s, h1, k1) \<Rightarrow>
             case new_State h1 k1 of (a, h2, k2) \<Rightarrow>
               Inr (\<lparr>start = s, accept = a\<rparr> # rest,
                    extend_epsilon
                      (extend_epsilon h2 s [start nfa1, a])
                      (accept nfa1) [start nfa1, a],
                    k2))
        | _ \<Rightarrow> Inl IndexError)
     else Inr (stack, h, k))"

fun bn_loop :: "bn_state \<Rightarrow> string \<Rightarrow> error + bn_state" where
  "bn_loop st [] = Inr st"
| "bn_loop st (c # cs) = (case bn_step st c of Inl e \<Rightarrow> Inl e | Inr st' \<Rightarrow> bn_loop st' cs)"

text \<open>\<^verbatim>\<open>return stack.pop()\<close> ends the builder.\<close>

definition build_nfa :: "string \<Rightarrow> nat \<Rightarrow> error + (nfa \<times> heap \<times> nat)" where
  "build_nfa postfix k =
     (case bn_loop ([], [], k) postfix of
        Inl e \<Rightarrow> Inl e
      | Inr (stack, h, k') \<Rightarrow>
          (case stack of [] \<Rightarrow> Inl IndexError | n # rest \<Rightarrow> Inr (n, h, k')))"

definition regex_to_nfa :: "string \<Rightarrow> nat \<Rightarrow> error + (nfa \<times> heap \<times> nat)" where
  "regex_to_nfa regex k =
     (case to_postfix regex of Inl e \<Rightarrow> Inl e | Inr postfix \<Rightarrow> build_nfa postfix k)"

text \<open>\<^verbatim>\<open>set([c for c in regex if c.isalnum()])\<close>\<close>

definition extract_alphabet :: "string \<Rightarrow> char set" where
  "extract_alphabet regex = set (filter isalnum regex)"

subsection \<open>Closure primitives\<close>

text \<open>
  Reading a field through a reference. A Python reference always denotes an object; a
  position beyond the arena, which only an ill-formed arena can hold, is read as an
  object without successors, so that the traversals below are total functions.
\<close>

definition epsilon_of :: "heap \<Rightarrow> nat \<Rightarrow> nat list" where
  "epsilon_of h q = (if q < length h then epsilon (h ! q) else [])"

definition edges_of :: "heap \<Rightarrow> nat \<Rightarrow> char \<rightharpoonup> nat list" where
  "edges_of h q = (if q < length h then edges (h ! q) else Map.empty)"

text \<open>
  The inner loop of \<^verbatim>\<open>epsilon_closure\<close>:
  \<^verbatim>\<open>for eps in state.epsilon: if eps not in closure: closure.add(eps); stack.append(eps)\<close>
\<close>

fun eps_visit :: "nat list \<Rightarrow> nat list \<Rightarrow> nat set \<Rightarrow> nat list \<times> nat set" where
  "eps_visit [] stack closure = (stack, closure)"
| "eps_visit (eps # rest) stack closure =
     (if eps \<notin> closure then eps_visit rest (eps # stack) (insert eps closure)
      else eps_visit rest stack closure)"

text \<open>
  The outer loop \<^verbatim>\<open>while stack: state = stack.pop(); ...\<close> of \<^verbatim>\<open>epsilon_closure\<close>. That
  it ends on every arena, cyclic or not, is proved in the section on termination.
\<close>

function eps_loop :: "heap \<Rightarrow> nat list \<Rightarrow> nat set \<Rightarrow> nat set" where
  "eps_loop h [] closure = closure"
| "eps_loop h (state # stack) closure =
     (case eps_visit (epsilon_of h state) stack closure of
        (stack', closure') \<Rightarrow> eps_loop h stack' closure')"
  by pat_completeness auto

text \<open>
  \<^verbatim>\<open>epsilon_closure(states)\<close>: \<^verbatim>\<open>stack = list(states)\<close> lists the set in an order Python
  does not fix; the model takes the sorted one, and \<open>eps_loop\<close> is studied for every
  enumeration of the set.
\<close>

definition epsilon_closure :: "heap \<Rightarrow> nat set \<Rightarrow> nat set" where
  "epsilon_closure h states = eps_loop h (sorted_list_of_set states) states"

text \<open>\<^verbatim>\<open>move(states, symbol)\<close>\<close>

definition move :: "heap \<Rightarrow> nat set \<Rightarrow> char \<Rightarrow> nat set" where
  "move h states symbol =
     (\<Union>state \<in> states.
        case edges_of h state symbol of None \<Rightarrow> {} | Some targets \<Rightarrow> set targets)"

subsection \<open>nfa_to_dfa: the subset construction\<close>

text \<open>
  \<^verbatim>\<open>class DFAState\<close>: the identifier (from the class counter \<^verbatim>\<open>DFAState._id_counter\<close>),
  the frozenset of NFA states, the dict from a symbol to the successor (a reference into
  the arena of DFA states) and the accepting flag.
\<close>

record dfa_state =
  did :: nat
  nfa_states :: "nat set"
  transitions :: "char \<rightharpoonup> nat"
  is_accept :: bool

definition new_DFAState :: "nat set \<Rightarrow> bool \<Rightarrow> nat \<Rightarrow> dfa_state" where
  "new_DFAState key acc counter =
     \<lparr>did = counter, nfa_states = key, transitions = Map.empty, is_accept = acc\<rparr>"

text \<open>\<^verbatim>\<open>dfa_state.transitions[symbol] = target\<close> on the object at position i\<close>

definition set_transition :: "dfa_state list \<Rightarrow> nat \<Rightarrow> char \<Rightarrow> nat \<Rightarrow> dfa_state list" where
  "set_transition arena i symbol j =
     arena[i := (arena ! i)\<lparr>transitions := (transitions (arena ! i))(symbol \<mapsto> j)\<rparr>]"

text \<open>
  The state of the construction: the dict \<^verbatim>\<open>dfa_states\<close> from a subset to a DFA state, as
  an association list in insertion order (the order \<^verbatim>\<open>dfa_states.values()\<close> lists); the
  arena of the DFA states allocated so far; the worklist \<^verbatim>\<open>unmarked\<close>; the class counter.
\<close>

type_synonym dfa_loop_state = "(nat set \<times> nat) list \<times> dfa_state list \<times> nat list \<times> nat"

text \<open>
  The body of \<^verbatim>\<open>for symbol in alphabet\<close> for the popped state i. The alphabet is a Python
  set; the list is the order in which the loop visits it. The membership test
  \<^verbatim>\<open>next_states_frozen not in dfa_states\<close> and the later read
  \<^verbatim>\<open>dfa_states[next_states_frozen]\<close> are the one lookup \<open>map_of\<close>: after an insertion the
  read returns the state just inserted.
\<close>

fun dfa_symbols :: "heap \<Rightarrow> nfa \<Rightarrow> nat \<Rightarrow> char list \<Rightarrow> dfa_loop_state \<Rightarrow> dfa_loop_state" where
  "dfa_symbols h n i [] st = st"
| "dfa_symbols h n i (symbol # rest) (dfa_states, arena, unmarked, d) =
    (let next_states = epsilon_closure h (move h (nfa_states (arena ! i)) symbol) in
     if next_states = {} then dfa_symbols h n i rest (dfa_states, arena, unmarked, d)
     else
       (case map_of dfa_states next_states of
          None \<Rightarrow>
            (let j = length arena;
                 arena' = arena @ [new_DFAState next_states (accept n \<in> next_states) d]
             in dfa_symbols h n i rest
                  (dfa_states @ [(next_states, j)], set_transition arena' i symbol j,
                   j # unmarked, d + 1))
        | Some j \<Rightarrow>
            dfa_symbols h n i rest
              (dfa_states, set_transition arena i symbol j, unmarked, d)))"

text \<open>
  The loop \<^verbatim>\<open>while unmarked: dfa_state = unmarked.pop(); for symbol in alphabet: ...\<close>
  That it ends is proved in the section on termination.
\<close>

function nfa_to_dfa_loop :: "heap \<Rightarrow> nfa \<Rightarrow> char list \<Rightarrow> dfa_loop_state \<Rightarrow> dfa_loop_state" where
  "nfa_to_dfa_loop h n alphabet (dfa_states, arena, [], d) = (dfa_states, arena, [], d)"
| "nfa_to_dfa_loop h n alphabet (dfa_states, arena, i # unmarked, d) =
     nfa_to_dfa_loop h n alphabet (dfa_symbols h n i alphabet (dfa_states, arena, unmarked, d))"
  by pat_completeness auto

text \<open>
  \<^verbatim>\<open>nfa_to_dfa(nfa, alphabet)\<close>, with the class counter of \<^verbatim>\<open>DFAState\<close> as an argument and
  in the result. The returned list is \<^verbatim>\<open>list(dfa_states.values())\<close>.
\<close>

definition nfa_to_dfa :: "heap \<Rightarrow> nfa \<Rightarrow> char list \<Rightarrow> nat \<Rightarrow> dfa_state list \<times> nat" where
  "nfa_to_dfa h n alphabet d =
     (let start_closure = epsilon_closure h {start n};
          start_state = new_DFAState start_closure (accept n \<in> start_closure) d
      in case nfa_to_dfa_loop h n alphabet ([(start_closure, 0)], [start_state], [0], d + 1) of
           (dfa_states, arena, unmarked, d') \<Rightarrow>
             (map (\<lambda>(key, j). arena ! j) dfa_states, d'))"

subsection \<open>The recognition driver and the pipeline\<close>

text \<open>
  Modelled from the spec: the recognition driver of section 6 of the specification, which
  the repository does not contain. It starts at the designated start state, follows one
  transition per input symbol, rejects when a symbol has no outgoing transition, and
  accepts iff the state reached when the input is exhausted has its accepting flag set.
  A state is referred to by its position in the returned list; the start state is the
  first one.
\<close>

fun dfa_run :: "dfa_state list \<Rightarrow> nat \<Rightarrow> string \<Rightarrow> bool" where
  "dfa_run dfa q [] = is_accept (dfa ! q)"
| "dfa_run dfa q (c # cs) =
     (case transitions (dfa ! q) c of None \<Rightarrow> False | Some q' \<Rightarrow> dfa_run dfa q' cs)"

definition dfa_accepts :: "dfa_state list \<Rightarrow> string \<Rightarrow> bool" where
  "dfa_accepts dfa s = dfa_run dfa 0 s"

text \<open>
  The pipeline of the module's entry point: \<^verbatim>\<open>nfa = regex_to_nfa(regex)\<close>, then
  \<^verbatim>\<open>dfa = nfa_to_dfa(nfa, alphabet)\<close>, from the two class counters k and d. The list
  \<open>alphabet\<close> is the order in which Python iterates over the alphabet set.
\<close>

definition compile :: "string \<Rightarrow> char list \<Rightarrow> nat \<Rightarrow> nat \<Rightarrow> error + dfa_state list" where
  "compile regex alphabet k d =
     (case regex_to_nfa regex k of
        Inl e \<Rightarrow> Inl e
      | Inr (n, h, k') \<Rightarrow> Inr (fst (nfa_to_dfa h n alphabet d)))"

text \<open>The driver on the result of the pipeline; a failed compilation recognizes nothing.\<close>

definition recognizes :: "error + dfa_state list \<Rightarrow> string \<Rightarrow> bool" where
  "recognizes r s = (case r of Inl e \<Rightarrow> False | Inr dfa \<Rightarrow> dfa_accepts dfa s)"

section \<open>The notions of the claims\<close>

text \<open>
  A closing parenthesis without an opening partner, read off the input alone: d counts
  the parentheses opened and not yet closed.
\<close>

fun unmatched_close :: "nat \<Rightarrow> string \<Rightarrow> bool" where
  "unmatched_close d [] = False"
| "unmatched_close d (c # cs) =
     (if c = CHR ''('' then unmatched_close (d + 1) cs
      else if c = CHR '')'' then d = 0 \<or> unmatched_close (d - 1) cs
      else unmatched_close d cs)"

text \<open>
  The number of fragments on the builder's stack, read off the postfix string alone;
  \<open>None\<close> when an operator finds fewer fragments than it pops.
\<close>

fun frag_count :: "nat \<Rightarrow> string \<Rightarrow> nat option" where
  "frag_count d [] = Some d"
| "frag_count d (c # cs) =
     (if isalnum c then frag_count (d + 1) cs
      else if c = CHR ''.'' \<or> c = CHR ''|'' then
        (if 2 \<le> d then frag_count (d - 1) cs else None)
      else if c = CHR ''*'' then (if 1 \<le> d then frag_count d cs else None)
      else frag_count d cs)"

text \<open>
  A character outside the supported set: no alphanumeric literal, no parenthesis, no
  union bar and no star, and not the dot of the precedence table either.
\<close>

definition unsupported :: "char \<Rightarrow> bool" where
  "unsupported c \<longleftrightarrow>
     \<not> isalnum c \<and> c \<notin> {CHR ''('', CHR '')'', CHR ''|'', CHR ''*'', CHR ''.''}"

text \<open>The epsilon edges of the arena, as a relation on references.\<close>

definition eps_step :: "heap \<Rightarrow> (nat \<times> nat) set" where
  "eps_step h = {(p, q). q \<in> set (epsilon_of h p)}"

text \<open>The states reachable from a state of the NFA, by epsilon and symbol edges.\<close>

definition nfa_step :: "heap \<Rightarrow> (nat \<times> nat) set" where
  "nfa_step h =
     {(p, q). q \<in> set (epsilon_of h p) \<or> (\<exists>c ts. edges_of h p c = Some ts \<and> q \<in> set ts)}"

definition nfa_reachable :: "heap \<Rightarrow> nat \<Rightarrow> nat set" where
  "nfa_reachable h q = (nfa_step h)\<^sup>* `` {q}"

text \<open>
  The subsets the construction can discover: the closure of the start state, and every
  non-empty closure of a move from a discovered subset on a symbol of the alphabet.
\<close>

inductive_set subsets_reached :: "heap \<Rightarrow> nfa \<Rightarrow> char set \<Rightarrow> nat set set"
  for h :: heap and n :: nfa and A :: "char set" where
  start: "epsilon_closure h {start n} \<in> subsets_reached h n A"
| step: "S \<in> subsets_reached h n A \<Longrightarrow> c \<in> A \<Longrightarrow>
         epsilon_closure h (move h S c) \<noteq> {} \<Longrightarrow>
         epsilon_closure h (move h S c) \<in> subsets_reached h n A"

text \<open>
  The states of the construction at the head of the \<^verbatim>\<open>while\<close> loop: the state before the
  first iteration, and the state after each iteration's \<^verbatim>\<open>for\<close> loop.
\<close>

inductive_set dfa_loop_states :: "heap \<Rightarrow> nfa \<Rightarrow> char list \<Rightarrow> nat \<Rightarrow> dfa_loop_state set"
  for h :: heap and n :: nfa and alphabet :: "char list" and d :: nat where
  initial: "([(epsilon_closure h {start n}, 0)],
      [new_DFAState (epsilon_closure h {start n}) (accept n \<in> epsilon_closure h {start n}) d],
      [0], d + 1) \<in> dfa_loop_states h n alphabet d"
| iteration: "(ds, arena, i # unmarked, d') \<in> dfa_loop_states h n alphabet d \<Longrightarrow>
      dfa_symbols h n i alphabet (ds, arena, unmarked, d') \<in> dfa_loop_states h n alphabet d"

text \<open>
  Runs of the NFA: a path from one state to another that spells a string, epsilon edges
  spelling nothing.
\<close>

inductive nfa_path :: "heap \<Rightarrow> nat \<Rightarrow> string \<Rightarrow> nat \<Rightarrow> bool" for h :: heap where
  path_refl: "nfa_path h p [] p"
| path_eps: "q \<in> set (epsilon_of h p) \<Longrightarrow> nfa_path h q w r \<Longrightarrow> nfa_path h p w r"
| path_sym: "edges_of h p c = Some ts \<Longrightarrow> q \<in> set ts \<Longrightarrow> nfa_path h q w r \<Longrightarrow>
             nfa_path h p (c # w) r"

text \<open>
  The NFA accepts a string when a path from its start state to its accept state spells it.
\<close>

definition nfa_accepts :: "heap \<Rightarrow> nfa \<Rightarrow> string \<Rightarrow> bool" where
  "nfa_accepts h n w = nfa_path h (start n) w (accept n)"

text \<open>
  Regular expressions over literals, and the language of each under concatenation,
  alternation and star semantics.
\<close>

datatype rexp = Lit char | Cat rexp rexp | Alt rexp rexp | Star rexp

inductive_set star :: "string set \<Rightarrow> string set" for L :: "string set" where
  star_nil: "[] \<in> star L"
| star_app: "u \<in> L \<Longrightarrow> v \<in> star L \<Longrightarrow> u @ v \<in> star L"

fun lang :: "rexp \<Rightarrow> string set" where
  "lang (Lit c) = {[c]}"
| "lang (Cat r1 r2) = {u @ v | u v. u \<in> lang r1 \<and> v \<in> lang r2}"
| "lang (Alt r1 r2) = lang r1 \<union> lang r2"
| "lang (Star r) = star (lang r)"

text \<open>
  The supported grammar, with the expression each string denotes: a regex is a union of
  concatenations of starred atoms; an atom is an alphanumeric literal or a regex in
  parentheses.
  \<^verbatim>\<open>alt ::= cat | alt '|' cat     cat ::= post | cat post\<close>
  \<^verbatim>\<open>post ::= atom | post '*'     atom ::= literal | '(' alt ')'\<close>
\<close>

inductive regex_atom :: "string \<Rightarrow> rexp \<Rightarrow> bool"
  and regex_post :: "string \<Rightarrow> rexp \<Rightarrow> bool"
  and regex_cat :: "string \<Rightarrow> rexp \<Rightarrow> bool"
  and regex_alt :: "string \<Rightarrow> rexp \<Rightarrow> bool" where
  literal: "isalnum c \<Longrightarrow> regex_atom [c] (Lit c)"
| group: "regex_alt s r \<Longrightarrow> regex_atom (CHR ''('' # s @ '')'') r"
| atom: "regex_atom s r \<Longrightarrow> regex_post s r"
| starred: "regex_post s r \<Longrightarrow> regex_post (s @ ''*'') (Star r)"
| post: "regex_post s r \<Longrightarrow> regex_cat s r"
| concat: "regex_cat s1 r1 \<Longrightarrow> regex_post s2 r2 \<Longrightarrow> regex_cat (s1 @ s2) (Cat r1 r2)"
| cat: "regex_cat s r \<Longrightarrow> regex_alt s r"
| union: "regex_alt s1 r1 \<Longrightarrow> regex_cat s2 r2 \<Longrightarrow>
          regex_alt (s1 @ CHR ''|'' # s2) (Alt r1 r2)"

text \<open>
  The arena built for \<^verbatim>\<open>a*\<close>. Its epsilon edges lead from 1 and from 2 to 0 and to 3; the
  cycle 0, 1, 0 of the graph passes through the symbol edge from 0 to 1, so the epsilon
  edges alone form no cycle.
\<close>

definition star_heap :: heap where
  "star_heap =
     [\<lparr>sid = 0, edges = [CHR ''a'' \<mapsto> [1]], epsilon = []\<rparr>,
      \<lparr>sid = 1, edges = Map.empty, epsilon = [0, 3]\<rparr>,
      \<lparr>sid = 2, edges = Map.empty, epsilon = [0, 3]\<rparr>,
      \<lparr>sid = 3, edges = Map.empty, epsilon = []\<rparr>]"

text \<open>
  The arena built for \<^verbatim>\<open>a**\<close>: the outer star adds the epsilon edges from 3 and from 4 to 2
  and to 5, so the epsilon edges form the cycle 2, 3, 2.
\<close>

definition star_star_heap :: heap where
  "star_star_heap =
     [\<lparr>sid = 0, edges = [CHR ''a'' \<mapsto> [1]], epsilon = []\<rparr>,
      \<lparr>sid = 1, edges = Map.empty, epsilon = [0, 3]\<rparr>,
      \<lparr>sid = 2, edges = Map.empty, epsilon = [0, 3]\<rparr>,
      \<lparr>sid = 3, edges = Map.empty, epsilon = [2, 5]\<rparr>,
      \<lparr>sid = 4, edges = Map.empty, epsilon = [2, 5]\<rparr>,
      \<lparr>sid = 5, edges = Map.empty, epsilon = []\<rparr>]"

section \<open>The notions of the proofs\<close>

text \<open>All epsilon successors stored in the arena: a finite set that bounds the traversal.\<close>

definition epsilon_targets :: "heap \<Rightarrow> nat set" where
  "epsilon_targets h = (\<Union>s \<in> set h. set (epsilon s))"

text \<open>
  All targets of symbol edges stored in the arena of NFA states, and the finite universe
  of the subsets the construction can meet after the start subset.
\<close>

definition edge_targets :: "heap \<Rightarrow> nat set" where
  "edge_targets h = (\<Union>s \<in> set h. \<Union>ts \<in> ran (edges s). set ts)"

definition subset_universe :: "heap \<Rightarrow> nat set set" where
  "subset_universe h = Pow (edge_targets h \<union> epsilon_targets h)"

text \<open>The number of opening markers on the operator stack.\<close>

definition opens :: "string \<Rightarrow> nat" where
  "opens stack = count_list stack (CHR ''('')"

text \<open>
  The structural invariant of the loop: the dict lists the subsets of the arena's states
  in allocation order, each with its position; no two states share a subset; the
  worklist holds positions of the arena, each once; the first state is the start state;
  every subset is a discovered one and every flag says whether the subset holds the
  accept state of the NFA.
\<close>

definition dfa_struct :: "heap \<Rightarrow> nfa \<Rightarrow> char set \<Rightarrow> dfa_loop_state \<Rightarrow> bool" where
  "dfa_struct h n A st =
     (case st of (ds, arena, unmarked, d) \<Rightarrow>
        ds = zip (map nfa_states arena) [0..<length arena] \<and>
        distinct (map nfa_states arena) \<and>
        set unmarked \<subseteq> {..<length arena} \<and> distinct unmarked \<and>
        arena \<noteq> [] \<and> nfa_states (hd arena) = epsilon_closure h {start n} \<and>
        (\<forall>s \<in> set arena. nfa_states s \<in> subsets_reached h n A \<and>
                          is_accept s = (accept n \<in> nfa_states s)))"

text \<open>The final state of the loop, and the list the function returns.\<close>

definition dfa_final :: "heap \<Rightarrow> nfa \<Rightarrow> char list \<Rightarrow> nat \<Rightarrow> dfa_loop_state" where
  "dfa_final h n alphabet d =
     nfa_to_dfa_loop h n alphabet
       ([(epsilon_closure h {start n}, 0)],
        [new_DFAState (epsilon_closure h {start n}) (accept n \<in> epsilon_closure h {start n}) d],
        [0], d + 1)"

text \<open>
  The transition table of the DFA state at position j is complete for the symbols of A:
  on a symbol of A whose next subset is not empty it leads to the state of that subset,
  and on every other symbol it has no entry.
\<close>

definition trans_ok :: "heap \<Rightarrow> char set \<Rightarrow> dfa_state list \<Rightarrow> nat \<Rightarrow> bool" where
  "trans_ok h A arena j \<longleftrightarrow>
     (\<forall>c. if c \<in> A \<and> epsilon_closure h (move h (nfa_states (arena ! j)) c) \<noteq> {}
          then \<exists>t < length arena. transitions (arena ! j) c = Some t \<and>
                 nfa_states (arena ! t) = epsilon_closure h (move h (nfa_states (arena ! j)) c)
          else transitions (arena ! j) c = None)"

text \<open>
  Inside the \<^verbatim>\<open>for\<close> loop of state i, after the symbols in \<open>seen\<close>: the popped and marked
  states other than i have complete tables, the states on the worklist have empty ones,
  and the table of i is complete for the symbols seen so far.
\<close>

definition dfa_inner :: "heap \<Rightarrow> char set \<Rightarrow> nat \<Rightarrow> char set \<Rightarrow> dfa_loop_state \<Rightarrow> bool" where
  "dfa_inner h A i seen st =
     (case st of (ds, arena, unmarked, d) \<Rightarrow>
        i < length arena \<and> i \<notin> set unmarked \<and>
        (\<forall>j < length arena. j \<notin> set unmarked \<longrightarrow> j \<noteq> i \<longrightarrow> trans_ok h A arena j) \<and>
        (\<forall>j \<in> set unmarked. transitions (arena ! j) = Map.empty) \<and>
        trans_ok h seen arena i)"

text \<open>At the head of the \<^verbatim>\<open>while\<close> loop.\<close>

definition dfa_outer :: "heap \<Rightarrow> char set \<Rightarrow> dfa_loop_state \<Rightarrow> bool" where
  "dfa_outer h A st =
     (case st of (ds, arena, unmarked, d) \<Rightarrow>
        (\<forall>j < length arena. j \<notin> set unmarked \<longrightarrow> trans_ok h A arena j) \<and>
        (\<forall>j \<in> set unmarked. transitions (arena ! j) = Map.empty))"

text \<open>The subset of NFA states after reading a string, computed with the code's primitives.\<close>

fun subset_run :: "heap \<Rightarrow> nat set \<Rightarrow> string \<Rightarrow> nat set" where
  "subset_run h S [] = S"
| "subset_run h S (c # cs) = subset_run h (epsilon_closure h (move h S c)) cs"

text \<open>An arena without the identifiers of its states.\<close>

definition shape :: "heap \<Rightarrow> ((char \<rightharpoonup> nat list) \<times> nat list) list" where
  "shape h = map (\<lambda>s. (edges s, epsilon s)) h"

text \<open>Two results of the builder that differ in the identifiers only.\<close>

definition same_run :: "error + bn_state \<Rightarrow> error + bn_state \<Rightarrow> bool" where
  "same_run r1 r2 =
     (case r1 of
        Inl e \<Rightarrow> r2 = Inl e
      | Inr (fs, h, k) \<Rightarrow> (\<exists>h' k'. r2 = Inr (fs, h', k') \<and> shape h = shape h'))"

text \<open>The postfix string of an expression, with the explicit concatenation marker.\<close>

fun postfix_of :: "rexp \<Rightarrow> string" where
  "postfix_of (Lit c) = [c]"
| "postfix_of (Cat r1 r2) = postfix_of r1 @ postfix_of r2 @ ''.''"
| "postfix_of (Alt r1 r2) = postfix_of r1 @ postfix_of r2 @ ''|''"
| "postfix_of (Star r) = postfix_of r @ ''*''"

text \<open>Every literal of the expression is alphanumeric.\<close>

fun literals_ok :: "rexp \<Rightarrow> bool" where
  "literals_ok (Lit c) = isalnum c"
| "literals_ok (Cat r1 r2) = (literals_ok r1 \<and> literals_ok r2)"
| "literals_ok (Alt r1 r2) = (literals_ok r1 \<and> literals_ok r2)"
| "literals_ok (Star r) = literals_ok r"

text \<open>
  A region of the arena that no edge leaves; two arenas with the same edges in a region.
\<close>

definition closed :: "heap \<Rightarrow> nat set \<Rightarrow> bool" where
  "closed h Q \<longleftrightarrow>
     (\<forall>q \<in> Q. set (epsilon_of h q) \<subseteq> Q \<and> (\<forall>c ts. edges_of h q c = Some ts \<longrightarrow> set ts \<subseteq> Q))"

definition same_on :: "heap \<Rightarrow> heap \<Rightarrow> nat set \<Rightarrow> bool" where
  "same_on h h' Q \<longleftrightarrow> (\<forall>q \<in> Q. epsilon_of h' q = epsilon_of h q \<and> edges_of h' q = edges_of h q)"

text \<open>
  A fragment occupies the positions from lo up to hi: both its states are there, no edge
  leaves the region, the accept state has no outgoing edge, and the strings spelled by
  the paths from start to accept are those of L.
\<close>

definition frag_ok :: "heap \<Rightarrow> nat \<Rightarrow> nat \<Rightarrow> nfa \<Rightarrow> string set \<Rightarrow> bool" where
  "frag_ok h lo hi f L \<longleftrightarrow>
     start f \<in> {lo..<hi} \<and> accept f \<in> {lo..<hi} \<and> hi \<le> length h \<and>
     closed h {lo..<hi} \<and>
     epsilon_of h (accept f) = [] \<and> edges_of h (accept f) = Map.empty \<and>
     (\<forall>w. nfa_path h (start f) w (accept f) \<longleftrightarrow> w \<in> L)"

text \<open>The second arena has every edge of the first within the region, and maybe more
  epsilon edges.\<close>

definition grows_on :: "heap \<Rightarrow> heap \<Rightarrow> nat set \<Rightarrow> bool" where
  "grows_on h h' Q \<longleftrightarrow>
     (\<forall>q \<in> Q. set (epsilon_of h q) \<subseteq> set (epsilon_of h' q) \<and> edges_of h' q = edges_of h q)"

text \<open>
  What every string of the grammar has: it is not empty, its literals are alphanumeric,
  and its last character ends an operand.
\<close>

definition wellformed :: "string \<Rightarrow> rexp \<Rightarrow> bool" where
  "wellformed s r \<longleftrightarrow> s \<noteq> [] \<and> literals_ok r \<and> joins (Some (last s))"

text \<open>The stack is empty or its top binds more loosely than l.\<close>

definition barrier :: "nat \<Rightarrow> string \<Rightarrow> bool" where
  "barrier l stack \<longleftrightarrow> stack = [] \<or> precedence_get (hd stack) < l"

text \<open>
  What the converter does before a literal or an opening parenthesis: after an operand it
  drains the operators that bind at least as tightly as concatenation and pushes the
  concatenation marker.
\<close>

definition prelude :: "pf_state \<Rightarrow> string \<times> string" where
  "prelude st =
     (case st of (output, stack, prev) \<Rightarrow>
        if joins prev
        then (case drain 2 output stack of (output', stack') \<Rightarrow> (output', CHR ''.'' # stack'))
        else (output, stack))"

text \<open>
  An atom is converted completely: whatever the state before it, the converter does its
  prelude and appends the postfix string of the atom; the stack is left as the prelude
  left it.
\<close>

definition conv_atom :: "string \<Rightarrow> rexp \<Rightarrow> bool" where
  "conv_atom s r \<longleftrightarrow>
     (\<forall>out stack prev out0 stack0.
        prelude (out, stack, prev) = (out0, stack0) \<longrightarrow>
        pf_loop (out, stack, prev) s = Inr (out0 @ postfix_of r, stack0, Some (last s)))"

text \<open>
  A starred atom may leave its last star pending on the stack: the output and the
  pending operators together are its postfix string.
\<close>

definition conv_post :: "string \<Rightarrow> rexp \<Rightarrow> bool" where
  "conv_post s r \<longleftrightarrow>
     (\<forall>out stack prev out0 stack0.
        prelude (out, stack, prev) = (out0, stack0) \<longrightarrow> barrier 3 stack0 \<longrightarrow>
        (\<exists>o' p. pf_loop (out, stack, prev) s = Inr (out0 @ o', p @ stack0, Some (last s)) \<and>
                o' @ p = postfix_of r \<and> (\<forall>x \<in> set p. 3 \<le> precedence_get x)))"

text \<open>
  A concatenation (l = 2) or a union (l = 1) that does not follow an operand, on a stack
  whose top binds more loosely than l: the pending operators bind at least as tightly
  as l.
\<close>

definition conv_level :: "nat \<Rightarrow> string \<Rightarrow> rexp \<Rightarrow> bool" where
  "conv_level l s r \<longleftrightarrow>
     (\<forall>out stack prev.
        \<not> joins prev \<longrightarrow> barrier l stack \<longrightarrow>
        (\<exists>o' p. pf_loop (out, stack, prev) s = Inr (out @ o', p @ stack, Some (last s)) \<and>
                o' @ p = postfix_of r \<and> (\<forall>x \<in> set p. l \<le> precedence_get x)))"

text \<open>
  The operator stack holds operators and opening parentheses only; the output holds
  literals as well.
\<close>

definition marks :: "string \<Rightarrow> bool" where
  "marks st \<longleftrightarrow> set st \<subseteq> {CHR ''('', CHR ''*'', CHR ''.'', CHR ''|''}"

definition postfix_tokens :: "string \<Rightarrow> bool" where
  "postfix_tokens out \<longleftrightarrow>
     (\<forall>x \<in> set out. isalnum x \<or> x \<in> {CHR ''('', CHR ''*'', CHR ''.'', CHR ''|''})"

section \<open>Termination of the traversals\<close>

lemma eps_visit_closure:
  "snd (eps_visit es stack closure) = closure \<union> set es"
  by (induction es arbitrary: stack closure) auto

lemma eps_visit_stack_set:
  "set (fst (eps_visit es stack closure)) = set stack \<union> (set es - closure)"
  by (induction es arbitrary: stack closure) auto

lemma eps_visit_same:
  "set es \<subseteq> closure \<Longrightarrow> fst (eps_visit es stack closure) = stack"
  by (induction es arbitrary: stack closure) auto

lemma finite_epsilon_targets: "finite (epsilon_targets h)"
  by (simp add: epsilon_targets_def)

lemma epsilon_of_targets: "set (epsilon_of h q) \<subseteq> epsilon_targets h"
  by (auto simp: epsilon_of_def epsilon_targets_def intro!: bexI [of _ "h ! q"])

lemma eps_loop_decreases:
  assumes "(stack', closure') = eps_visit (epsilon_of h q) stack closure"
  shows "((card (epsilon_targets h - closure'), length stack'),
          (card (epsilon_targets h - closure), length (q # stack)))
         \<in> less_than <*lex*> less_than"
proof -
  let ?es = "epsilon_of h q" and ?U = "epsilon_targets h"
  have c: "closure' = closure \<union> set ?es"
    using assms eps_visit_closure [of ?es stack closure] by (metis snd_conv)
  have s: "stack' = fst (eps_visit ?es stack closure)"
    using assms by (metis fst_conv)
  show ?thesis
  proof (cases "set ?es \<subseteq> closure")
    case True
    then have "closure' = closure" using c by auto
    moreover have "stack' = stack" using s True by (simp add: eps_visit_same)
    ultimately show ?thesis by simp
  next
    case False
    then obtain x where x: "x \<in> set ?es" "x \<notin> closure" by auto
    then have "x \<in> ?U - closure" "x \<notin> ?U - closure'"
      using epsilon_of_targets [of h q] c by auto
    moreover have "?U - closure' \<subseteq> ?U - closure" using c by auto
    ultimately have "?U - closure' \<subset> ?U - closure" by auto
    then have "card (?U - closure') < card (?U - closure)"
      by (intro psubset_card_mono) (simp_all add: finite_epsilon_targets)
    then show ?thesis by simp
  qed
qed

termination eps_loop
  apply (relation "inv_image (less_than <*lex*> less_than)
        (\<lambda>(h, stack, closure). (card (epsilon_targets h - closure), length stack))")
   apply (intro wf_inv_image wf_lex_prod wf_less_than)
  subgoal for h state stack closure stack' closure'
    using eps_loop_decreases [of stack' closure' h state stack closure]
    by (cases "eps_visit (epsilon_of h state) stack closure") simp
  done

lemma finite_edge_targets: "finite (edge_targets h)"
proof -
  have "finite (ran (edges s))" for s :: state
    by (rule finite_ran) (rule finite_subset [OF subset_UNIV finite_UNIV])
  then show ?thesis by (simp add: edge_targets_def)
qed

lemma move_targets: "move h S c \<subseteq> edge_targets h"
proof
  fix x assume "x \<in> move h S c"
  then obtain q ts where q: "q \<in> S" "edges_of h q c = Some ts" "x \<in> set ts"
    by (auto simp: move_def split: option.splits)
  then have "q < length h" "edges (h ! q) c = Some ts"
    by (auto simp: edges_of_def split: if_splits)
  then have "h ! q \<in> set h" "ts \<in> ran (edges (h ! q))"
    by (auto simp: ran_def)
  then show "x \<in> edge_targets h"
    using q(3) unfolding edge_targets_def by blast
qed

lemma eps_loop_bound: "eps_loop h stack closure \<subseteq> closure \<union> epsilon_targets h"
proof (induction h stack closure rule: eps_loop.induct)
  case (1 h closure)
  then show ?case by simp
next
  case (2 h state stack closure)
  obtain stack' closure' where v: "eps_visit (epsilon_of h state) stack closure = (stack', closure')"
    by (cases "eps_visit (epsilon_of h state) stack closure")
  then have "closure' = closure \<union> set (epsilon_of h state)"
    using eps_visit_closure [of "epsilon_of h state" stack closure] by simp
  then have "closure' \<subseteq> closure \<union> epsilon_targets h"
    using epsilon_of_targets [of h state] by auto
  moreover have "eps_loop h stack' closure' \<subseteq> closure' \<union> epsilon_targets h"
    using "2.IH" [OF v [symmetric]] .
  ultimately show ?case using v by auto
qed

lemma finite_subset_universe: "finite (subset_universe h)"
  by (simp add: subset_universe_def finite_edge_targets finite_epsilon_targets)

lemma next_states_universe: "epsilon_closure h (move h S c) \<in> subset_universe h"
  using eps_loop_bound [of h "sorted_list_of_set (move h S c)" "move h S c"] move_targets [of h S c]
  by (auto simp: epsilon_closure_def subset_universe_def)

lemma dfa_symbols_keys:
  assumes "dfa_symbols h n i alphabet (ds, arena, unmarked, d) = (ds', arena', unmarked', d')"
  shows "fst ` set ds \<subseteq> fst ` set ds' \<and> fst ` set ds' - fst ` set ds \<subseteq> subset_universe h
         \<and> (fst ` set ds' = fst ` set ds \<longrightarrow> unmarked' = unmarked)"
  using assms
proof (induction alphabet arbitrary: ds arena unmarked d)
  case Nil
  then show ?case by simp
next
  case (Cons symbol rest)
  let ?N = "epsilon_closure h (move h (nfa_states (arena ! i)) symbol)"
  show ?case
  proof (cases "?N = {}")
    case True
    then show ?thesis using Cons.IH [of ds arena unmarked d] Cons.prems by simp
  next
    case False
    show ?thesis
    proof (cases "map_of ds ?N")
      case None
      let ?j = "length arena"
      let ?arena = "set_transition (arena @ [new_DFAState ?N (accept n \<in> ?N) d]) i symbol ?j"
      have new: "?N \<notin> fst ` set ds" using None by (simp add: map_of_eq_None_iff)
      have "dfa_symbols h n i rest (ds @ [(?N, ?j)], ?arena, ?j # unmarked, d + 1)
            = (ds', arena', unmarked', d')"
        using Cons.prems False None by (simp add: Let_def)
      from Cons.IH [OF this]
      have sub: "fst ` set (ds @ [(?N, ?j)]) \<subseteq> fst ` set ds'"
        and univ: "fst ` set ds' - fst ` set (ds @ [(?N, ?j)]) \<subseteq> subset_universe h"
        by blast+
      have "?N \<in> fst ` set ds'" using sub by auto
      then have "fst ` set ds' \<noteq> fst ` set ds" using new by auto
      moreover have "fst ` set ds \<subseteq> fst ` set ds'" using sub by auto
      moreover have "fst ` set ds' - fst ` set ds \<subseteq> subset_universe h"
        using univ next_states_universe [of h "nfa_states (arena ! i)" symbol] by auto
      ultimately show ?thesis by blast
    next
      case (Some j)
      then have "dfa_symbols h n i rest (ds, set_transition arena i symbol j, unmarked, d)
            = (ds', arena', unmarked', d')"
        using Cons.prems False by (simp add: Let_def)
      from Cons.IH [OF this] show ?thesis .
    qed
  qed
qed

lemma nfa_to_dfa_loop_decreases:
  assumes "dfa_symbols h n i alphabet (ds, arena, unmarked, d) = (ds', arena', unmarked', d')"
  shows "((card (subset_universe h - fst ` set ds'), length unmarked'),
          (card (subset_universe h - fst ` set ds), length (i # unmarked)))
         \<in> less_than <*lex*> less_than"
proof -
  let ?U = "subset_universe h" and ?K = "fst ` set ds" and ?K' = "fst ` set ds'"
  from dfa_symbols_keys [OF assms]
  have k: "?K \<subseteq> ?K'" "?K' - ?K \<subseteq> ?U" "?K' = ?K \<longrightarrow> unmarked' = unmarked" by blast+
  show ?thesis
  proof (cases "?K' = ?K")
    case True
    then show ?thesis using k by simp
  next
    case False
    then obtain x where "x \<in> ?K'" "x \<notin> ?K" using k by auto
    then have "x \<in> ?U - ?K" "x \<notin> ?U - ?K'" using k by auto
    moreover have "?U - ?K' \<subseteq> ?U - ?K" using k by auto
    ultimately have "?U - ?K' \<subset> ?U - ?K" by auto
    then have "card (?U - ?K') < card (?U - ?K)"
      by (intro psubset_card_mono) (simp_all add: finite_subset_universe)
    then show ?thesis by simp
  qed
qed

termination nfa_to_dfa_loop
  apply (relation "inv_image (less_than <*lex*> less_than)
        (\<lambda>(h, n, alphabet, ds, arena, unmarked, d).
           (card (subset_universe h - fst ` set ds), length unmarked))")
   apply (intro wf_inv_image wf_lex_prod wf_less_than)
  subgoal for h n alphabet ds arena i unmarked d
    using nfa_to_dfa_loop_decreases [of h n i alphabet ds arena unmarked d]
    by (cases "dfa_symbols h n i alphabet (ds, arena, unmarked, d)") simp
  done

section \<open>Properties of the postfix converter\<close>

lemma isalnum_simps [simp]:
  "\<not> isalnum (CHR ''('')" "\<not> isalnum (CHR '')'')" "\<not> isalnum (CHR ''|'')"
  "\<not> isalnum (CHR ''*'')" "\<not> isalnum (CHR ''.'')"
  by (simp_all add: isalnum_def)

lemma precedence_get_simps [simp]:
  "precedence_get (CHR ''*'') = 3" "precedence_get (CHR ''.'') = 2"
  "precedence_get (CHR ''|'') = 1" "precedence_get (CHR ''('') = 0"
  by (simp_all add: precedence_get_def precedence_def)

lemma dom_precedence: "dom precedence = {CHR ''*'', CHR ''.'', CHR ''|''}"
  by (auto simp: precedence_def split: if_splits)

lemma precedence_get_pos: "c \<in> dom precedence \<Longrightarrow> 1 \<le> precedence_get c"
  by (auto simp: dom_precedence)

lemma drain_opens: "1 \<le> n \<Longrightarrow> opens (snd (drain n out st)) = opens st"
  by (induction st arbitrary: out) (auto simp: opens_def)

lemma drain_group_opens:
  "(snd (drain_group out st) = [] \<and> opens st = 0) \<or>
   (\<exists>rest. snd (drain_group out st) = CHR ''('' # rest \<and> opens st = Suc (opens rest))"
  by (induction st arbitrary: out) (auto simp: opens_def)

lemma pf_step_fails:
  "c = CHR '')'' \<Longrightarrow> opens st = 0 \<Longrightarrow> pf_step (out, st, prev) c = Inl IndexError"
  using drain_group_opens [of out st] by (auto split: prod.splits)

lemma pf_step_succeeds:
  assumes "\<not> (c = CHR '')'' \<and> opens st = 0)"
  shows "\<exists>out' st'. pf_step (out, st, prev) c = Inr (out', st', Some c) \<and>
           opens st' = (if c = CHR ''('' then Suc (opens st)
                        else if c = CHR '')'' then opens st - 1 else opens st)"
proof -
  consider (lit) "isalnum c" | (op) "\<not> isalnum c" "c = CHR ''(''"
    | (cl) "\<not> isalnum c" "c = CHR '')''" | (oper) "\<not> isalnum c" "c \<noteq> CHR ''(''" "c \<noteq> CHR '')''" "c \<in> dom precedence"
    | (other) "\<not> isalnum c" "c \<noteq> CHR ''(''" "c \<noteq> CHR '')''" "c \<notin> dom precedence"
    by blast
  then show ?thesis
  proof cases
    case lit
    then have "c \<noteq> CHR ''(''" "c \<noteq> CHR '')''" by auto
    then show ?thesis using lit drain_opens [of 2 out st]
      by (auto split: prod.splits simp: opens_def)
  next
    case op
    then show ?thesis using drain_opens [of 2 out st]
      by (auto split: prod.splits simp: opens_def)
  next
    case cl
    then show ?thesis using assms drain_group_opens [of out st]
      by (auto split: prod.splits)
  next
    case oper
    then show ?thesis using drain_opens [OF precedence_get_pos, of c out st]
      by (auto split: prod.splits simp: opens_def)
  next
    case other
    then show ?thesis by simp
  qed
qed

lemma pf_loop_fails_iff:
  "pf_loop (out, st, prev) s = Inl IndexError \<longleftrightarrow> unmatched_close (opens st) s"
proof (induction s arbitrary: out st prev)
  case Nil
  then show ?case by simp
next
  case (Cons c cs)
  show ?case
  proof (cases "c = CHR '')'' \<and> opens st = 0")
    case True
    then show ?thesis using pf_step_fails [of c st out prev] by simp
  next
    case False
    from pf_step_succeeds [OF this, of out prev]
    obtain out' st' where "pf_step (out, st, prev) c = Inr (out', st', Some c)"
      "opens st' = (if c = CHR ''('' then Suc (opens st)
                        else if c = CHR '')'' then opens st - 1 else opens st)" by blast
    then show ?thesis using False Cons.IH [of out' st' "Some c"] by auto
  qed
qed

text \<open>
  Claim C2, as the code has it. The converter has no named errors. It fails exactly when
  a closing parenthesis arrives while no opening marker is on the stack, and the failure
  is the \<^verbatim>\<open>IndexError\<close> of \<^verbatim>\<open>stack.pop()\<close> on the empty stack. On every other input, an
  unclosed group or a trailing operator included, it returns a postfix string and signals
  nothing.
\<close>

theorem to_postfix_failure:
  "(unmatched_close 0 regex \<longrightarrow> to_postfix regex = Inl IndexError) \<and>
   (\<not> unmatched_close 0 regex \<longrightarrow> (\<exists>postfix. to_postfix regex = Inr postfix))"
proof -
  have "pf_loop ([], [], None) regex = Inl IndexError \<longleftrightarrow> unmatched_close 0 regex"
    using pf_loop_fails_iff [of "[]" "[]" None regex] by (simp add: opens_def)
  then show ?thesis
    by (cases "pf_loop ([], [], None) regex") (auto simp: to_postfix_def split: prod.splits intro: error.exhaust)
qed

theorem to_postfix_failure_witness:
  "unmatched_close 0 ''a)b'' \<and> to_postfix ''a)b'' = Inl IndexError \<and>
   \<not> unmatched_close 0 ''(a|b'' \<and> (\<exists>postfix. to_postfix ''(a|b'' = Inr postfix) \<and>
   \<not> unmatched_close 0 ''a|'' \<and> (\<exists>postfix. to_postfix ''a|'' = Inr postfix)"
  using to_postfix_failure [of "''a)b''"] to_postfix_failure [of "''(a|b''"]
    to_postfix_failure [of "''a|''"]
  by simp

text \<open>
  Against claim C2 as stated: \<^verbatim>\<open>a)b\<close> ends in the generic \<^verbatim>\<open>IndexError\<close>; the unclosed
  \<^verbatim>\<open>(a|b\<close> is converted, its opening marker flushed into the postfix string, and the whole
  compilation succeeds; the trailing operator of \<^verbatim>\<open>a|\<close> passes the converter and ends in the
  builder's \<^verbatim>\<open>IndexError\<close>.
\<close>

theorem to_postfix_no_named_error:
  "to_postfix ''a)b'' = Inl IndexError \<and> to_postfix ''(a|b'' = Inr ''ab|('' \<and>
   \<not> isl (regex_to_nfa ''(a|b'' 0) \<and>
   to_postfix ''a|'' = Inr ''a|'' \<and> regex_to_nfa ''a|'' 0 = Inl IndexError"
  by (simp add: regex_to_nfa_def build_nfa_def to_postfix_def isalnum_def joins_def
      dom_precedence new_State_def)

text \<open>
  Literals beyond ASCII: \<^verbatim>\<open>U+00E9\<close> is alphanumeric and is converted as a literal; the
  multiplication sign \<^verbatim>\<open>U+00D7\<close> is not.
\<close>

lemma latin1_literal:
  "isalnum (CHR 0xE9) \<and> \<not> isalnum (CHR 0xD7) \<and>
   to_postfix [CHR ''a'', CHR 0xE9, CHR ''b'']
     = Inr [CHR ''a'', CHR 0xE9, CHR ''.'', CHR ''b'', CHR ''.'']"
  by (simp add: to_postfix_def isalnum_def joins_def dom_precedence)

subsection \<open>What the converter keeps and what it drops\<close>

lemma unmatched_close_supported:
  "unmatched_close d (filter (\<lambda>x. \<not> unsupported x) s) = unmatched_close d s"
  by (induction s arbitrary: d) (auto simp: unsupported_def)

lemma to_postfix_fails_iff: "isl (to_postfix regex) \<longleftrightarrow> unmatched_close 0 regex"
proof -
  have "pf_loop ([], [], None) regex = Inl IndexError \<longleftrightarrow> unmatched_close 0 regex"
    using pf_loop_fails_iff [of "[]" "[]" None regex] by (simp add: opens_def)
  then show ?thesis
    by (cases "pf_loop ([], [], None) regex")
       (auto simp: to_postfix_def split: prod.splits intro: error.exhaust)
qed

lemma drain_moves: "\<exists>p q. st = p @ q \<and> drain n out st = (out @ p, q)"
proof (induction st arbitrary: out)
  case Nil
  then show ?case by simp
next
  case (Cons x st)
  show ?case
  proof (cases "precedence_get x \<ge> n")
    case True
    from Cons.IH [of "out @ [x]"] obtain p q where
      "st = p @ q" "drain n (out @ [x]) st = ((out @ [x]) @ p, q)" by blast
    then have "x # st = (x # p) @ q \<and> drain n out (x # st) = (out @ (x # p), q)"
      using True by simp
    then show ?thesis by blast
  next
    case False
    then have "x # st = [] @ (x # st) \<and> drain n out (x # st) = (out @ [], x # st)" by simp
    then show ?thesis by blast
  qed
qed

lemma drain_group_moves: "\<exists>p q. st = p @ q \<and> drain_group out st = (out @ p, q)"
proof (induction st arbitrary: out)
  case Nil
  then show ?case by simp
next
  case (Cons x st)
  show ?case
  proof (cases "x \<noteq> CHR ''(''")
    case True
    from Cons.IH [of "out @ [x]"] obtain p q where
      "st = p @ q" "drain_group (out @ [x]) st = ((out @ [x]) @ p, q)" by blast
    then have "x # st = (x # p) @ q \<and> drain_group out (x # st) = (out @ (x # p), q)"
      using True by simp
    then show ?thesis by blast
  next
    case False
    then have "x # st = [] @ (x # st) \<and> drain_group out (x # st) = (out @ [], x # st)" by simp
    then show ?thesis by blast
  qed
qed

lemma marks_simps:
  "marks []"
  "marks (x # st) \<longleftrightarrow> x \<in> {CHR ''('', CHR ''*'', CHR ''.'', CHR ''|''} \<and> marks st"
  "marks (u @ v) \<longleftrightarrow> marks u \<and> marks v"
  by (auto simp: marks_def)

lemma postfix_tokens_simps:
  "postfix_tokens []"
  "postfix_tokens (x # out) \<longleftrightarrow>
     (isalnum x \<or> x \<in> {CHR ''('', CHR ''*'', CHR ''.'', CHR ''|''}) \<and> postfix_tokens out"
  "postfix_tokens (u @ v) \<longleftrightarrow> postfix_tokens u \<and> postfix_tokens v"
  by (auto simp: postfix_tokens_def)

lemma marks_no_literal: "marks st \<Longrightarrow> filter isalnum st = []"
  by (induction st) (auto simp: marks_def)

lemma marks_postfix_tokens: "marks st \<Longrightarrow> postfix_tokens st"
  by (auto simp: marks_def postfix_tokens_def)

lemma pf_step_tokens:
  assumes "pf_step (out, st, prev) c = Inr (out', st', prev')" "marks st" "postfix_tokens out"
  shows "marks st' \<and> postfix_tokens out' \<and>
         filter isalnum out' = filter isalnum out @ filter isalnum [c]"
proof -
  have moved: "marks u \<and> marks v \<and> postfix_tokens (out @ u) \<and>
               filter isalnum (out @ u) = filter isalnum out" if "st = u @ v" for u v
    using assms(2,3) that
    by (simp add: marks_simps postfix_tokens_simps marks_no_literal marks_postfix_tokens)
  consider (lit) "isalnum c" | (op) "\<not> isalnum c" "c = CHR ''(''"
    | (cl) "\<not> isalnum c" "c = CHR '')''"
    | (oper) "\<not> isalnum c" "c \<noteq> CHR ''(''" "c \<noteq> CHR '')''" "c \<in> dom precedence"
    | (other) "\<not> isalnum c" "c \<noteq> CHR ''(''" "c \<noteq> CHR '')''" "c \<notin> dom precedence"
    by blast
  then show ?thesis
  proof cases
    case lit
    obtain u v where d: "st = u @ v" "drain 2 out st = (out @ u, v)"
      using drain_moves by blast
    from assms(1) lit d(2) have
      "(out' = (out @ u) @ [c] \<and> st' = CHR ''.'' # v) \<or> (out' = out @ [c] \<and> st' = st)"
      by (simp split: if_splits)
    then show ?thesis using moved [OF d(1)] lit assms(2,3)
      by (auto simp: marks_simps postfix_tokens_simps)
  next
    case op
    obtain u v where d: "st = u @ v" "drain 2 out st = (out @ u, v)"
      using drain_moves by blast
    from assms(1) op d(2) have
      "(out' = out @ u \<and> st' = CHR ''('' # CHR ''.'' # v) \<or> (out' = out \<and> st' = CHR ''('' # st)"
      by (simp split: if_splits)
    then show ?thesis using moved [OF d(1)] op assms(2,3)
      by (auto simp: marks_simps postfix_tokens_simps)
  next
    case cl
    obtain u v where d: "st = u @ v" "drain_group out st = (out @ u, v)"
      using drain_group_moves by blast
    from assms(1) cl d(2) obtain x where "v = x # st'" "out' = out @ u"
      by (cases v) simp_all
    then show ?thesis using moved [OF d(1)] cl
      by (simp add: marks_simps)
  next
    case oper
    obtain u v where d: "st = u @ v" "drain (precedence_get c) out st = (out @ u, v)"
      using drain_moves by blast
    from assms(1) oper d(2) have "out' = out @ u" "st' = c # v" by simp_all
    moreover have "c \<in> {CHR ''('', CHR ''*'', CHR ''.'', CHR ''|''}"
      using oper(4) by (auto simp: dom_precedence)
    ultimately show ?thesis using moved [OF d(1)] oper(1)
      by (simp add: marks_simps)
  next
    case other
    then show ?thesis using assms by simp
  qed
qed

lemma pf_loop_tokens:
  assumes "pf_loop (out, st, prev) s = Inr (out', st', prev')" "marks st" "postfix_tokens out"
  shows "marks st' \<and> postfix_tokens out' \<and> filter isalnum out' = filter isalnum out @ filter isalnum s"
  using assms
proof (induction s arbitrary: out st prev)
  case Nil
  then show ?case by simp
next
  case (Cons c cs)
  from Cons.prems(1) obtain out1 st1 prev1 where
    s: "pf_step (out, st, prev) c = Inr (out1, st1, prev1)"
    and l: "pf_loop (out1, st1, prev1) cs = Inr (out', st', prev')"
    by (cases "pf_step (out, st, prev) c") (auto simp del: pf_step.simps)
  from pf_step_tokens [OF s Cons.prems(2,3)] have
    1: "marks st1" "postfix_tokens out1" "filter isalnum out1 = filter isalnum out @ filter isalnum [c]"
    by simp_all
  from Cons.IH [OF l 1(1,2)] 1(3) show ?case by simp
qed

lemma to_postfix_tokens:
  assumes "to_postfix regex = Inr postfix"
  shows "filter isalnum postfix = filter isalnum regex \<and>
         (\<forall>x \<in> set postfix. isalnum x \<or> x \<in> {CHR ''('', CHR ''*'', CHR ''.'', CHR ''|''})"
proof -
  from assms obtain out st prev where
    l: "pf_loop ([], [], None) regex = Inr (out, st, prev)" and p: "postfix = out @ st"
    by (auto simp: to_postfix_def split: sum.splits prod.splits)
  have "marks []" "postfix_tokens []" by (simp_all add: marks_def postfix_tokens_def)
  from pf_loop_tokens [OF l this] have "marks st" "postfix_tokens out"
    "filter isalnum out = filter isalnum regex" by simp_all
  then show ?thesis using p marks_no_literal [of st] marks_postfix_tokens [of st]
    by (auto simp: postfix_tokens_def)
qed

lemma pf_step_dot:
  "pf_step (out, stack, prev) (CHR ''.'') =
     (case drain 2 out stack of (out', stack') \<Rightarrow>
        Inr (out', CHR ''.'' # stack', Some (CHR ''.'')))"
  by (simp add: dom_precedence)

section \<open>Properties of the NFA builder\<close>

lemma bn_step_count:
  "(case frag_count (length stack) [c] of
      None \<Rightarrow> bn_step (stack, h, k) c = Inl IndexError
    | Some d \<Rightarrow> (\<exists>stack' h' k'. bn_step (stack, h, k) c = Inr (stack', h', k') \<and> length stack' = d))"
  by (cases stack rule: list.exhaust [case_product list.exhaust])
     (auto split: list.splits prod.splits simp: new_State_def)

lemma frag_count_Cons:
  "frag_count d (c # cs) = (case frag_count d [c] of None \<Rightarrow> None | Some d' \<Rightarrow> frag_count d' cs)"
  by simp

lemma bn_loop_count:
  "(case frag_count (length stack) p of
      None \<Rightarrow> bn_loop (stack, h, k) p = Inl IndexError
    | Some d \<Rightarrow> (\<exists>stack' h' k'. bn_loop (stack, h, k) p = Inr (stack', h', k') \<and> length stack' = d))"
proof (induction p arbitrary: stack h k)
  case Nil
  then show ?case by simp
next
  case (Cons c cs)
  show ?case
  proof (cases "frag_count (length stack) [c]")
    case None
    then have "bn_step (stack, h, k) c = Inl IndexError"
      using bn_step_count [where stack=stack and c=c and h=h and k=k] by simp
    then have a: "bn_loop (stack, h, k) (c # cs) = Inl IndexError"
      by (simp del: bn_step.simps)
    have b: "frag_count (length stack) (c # cs) = None"
      using None by (subst frag_count_Cons) simp
    show ?thesis unfolding a b by simp
  next
    case (Some d)
    then obtain stack' h' k' where s: "bn_step (stack, h, k) c = Inr (stack', h', k')" "length stack' = d"
      using bn_step_count [where stack=stack and c=c and h=h and k=k] by auto
    have a: "frag_count (length stack) (c # cs) = frag_count (length stack') cs"
      using Some s by (subst frag_count_Cons) simp
    have b: "bn_loop (stack, h, k) (c # cs) = bn_loop (stack', h', k') cs"
      using s(1) by (simp del: bn_step.simps)
    show ?thesis unfolding a b using Cons.IH [of stack' h' k'] .
  qed
qed

text \<open>The builder returns the same with or without the unsupported tokens.\<close>

lemma bn_loop_supported:
  "bn_loop st (filter (\<lambda>x. \<not> unsupported x) p) = bn_loop st p"
proof (induction p arbitrary: st)
  case Nil
  then show ?case by simp
next
  case (Cons c cs)
  obtain stack h k where st: "st = (stack, h, k)" by (cases st)
  show ?case
  proof (cases "unsupported c")
    case True
    then have "bn_step (stack, h, k) c = Inr (stack, h, k)" by (simp add: unsupported_def)
    then show ?thesis using True Cons.IH [of st] st by (simp del: bn_step.simps)
  next
    case False
    then show ?thesis using Cons.IH
      by (cases "bn_step st c") (simp_all del: bn_step.simps)
  qed
qed

section \<open>Properties of the closure primitives\<close>

lemma eps_step_Image: "eps_step h `` {p} = set (epsilon_of h p)"
  by (auto simp: eps_step_def)

lemma rtrancl_Image_closed:
  assumes "R `` A \<subseteq> A"
  shows "R\<^sup>* `` A = A"
proof
  show "A \<subseteq> R\<^sup>* `` A" by auto
  show "R\<^sup>* `` A \<subseteq> A"
  proof
    fix y assume "y \<in> R\<^sup>* `` A"
    then obtain x where "x \<in> A" "(x, y) \<in> R\<^sup>*" by auto
    from this(2) this(1) show "y \<in> A"
      by (induction rule: rtrancl_induct) (use assms in auto)
  qed
qed

lemma rtrancl_Image_absorb:
  assumes "B \<subseteq> R\<^sup>* `` A"
  shows "R\<^sup>* `` (A \<union> B) = R\<^sup>* `` A"
proof -
  have "R\<^sup>* `` B \<subseteq> R\<^sup>* `` (R\<^sup>* `` A)" using assms by (intro Image_mono) auto
  also have "\<dots> = R\<^sup>* `` A" by (auto intro: rtrancl_trans)
  finally show ?thesis by auto
qed

lemma eps_loop_correct:
  assumes "set stack \<subseteq> closure" "\<forall>p \<in> closure - set stack. eps_step h `` {p} \<subseteq> closure"
  shows "eps_loop h stack closure = (eps_step h)\<^sup>* `` closure"
  using assms
proof (induction h stack closure rule: eps_loop.induct)
  case (1 h closure)
  then have "eps_step h `` closure \<subseteq> closure" by auto
  then show ?case by (simp add: rtrancl_Image_closed)
next
  case (2 h state stack closure)
  let ?es = "epsilon_of h state"
  obtain stack' closure' where v: "eps_visit ?es stack closure = (stack', closure')"
    by (cases "eps_visit ?es stack closure")
  have c: "closure' = closure \<union> set ?es"
    using v eps_visit_closure [of ?es stack closure] by simp
  have s: "set stack' = set stack \<union> (set ?es - closure)"
    using v eps_visit_stack_set [of ?es stack closure] by simp
  have st: "state \<in> closure" using "2.prems"(1) by simp
  have 1: "set stack' \<subseteq> closure'" using c s "2.prems"(1) by auto
  have 2: "\<forall>p \<in> closure' - set stack'. eps_step h `` {p} \<subseteq> closure'"
  proof
    fix p assume p: "p \<in> closure' - set stack'"
    then have pc: "p \<in> closure" "p \<notin> set stack" using c s by auto
    show "eps_step h `` {p} \<subseteq> closure'"
    proof (cases "p = state")
      case True
      then show ?thesis using c by (simp add: eps_step_Image)
    next
      case False
      then have "p \<in> closure - set (state # stack)" using pc by simp
      then have "eps_step h `` {p} \<subseteq> closure" using "2.prems"(2) by blast
      then show ?thesis using c by auto
    qed
  qed
  have "set ?es \<subseteq> (eps_step h)\<^sup>* `` closure"
    using st by (auto simp: eps_step_def)
  then have "(eps_step h)\<^sup>* `` closure' = (eps_step h)\<^sup>* `` closure"
    unfolding c by (rule rtrancl_Image_absorb)
  moreover have "eps_loop h stack' closure' = (eps_step h)\<^sup>* `` closure'"
    using "2.IH" [OF v [symmetric] 1 2] .
  ultimately show ?case using v by simp
qed

lemma eps_loop_enum:
  "set xs = S \<Longrightarrow> eps_loop h xs S = (eps_step h)\<^sup>* `` S"
  by (rule eps_loop_correct) auto

lemma epsilon_closure_eq:
  "finite S \<Longrightarrow> epsilon_closure h S = (eps_step h)\<^sup>* `` S"
  unfolding epsilon_closure_def by (rule eps_loop_enum) simp

text \<open>
  Claim C8. For a finite set S of references, \<^verbatim>\<open>epsilon_closure(S)\<close> returns (the function
  is total: its termination is proved above for every arena, cyclic or not) exactly the
  references reachable from a member of S by zero or more epsilon edges; S is part of the
  result; and the result is the same for every order in which \<^verbatim>\<open>list(states)\<close> may
  enumerate S.
\<close>

theorem epsilon_closure_reachable:
  assumes "finite S"
  shows "epsilon_closure h S = {q. \<exists>p \<in> S. (p, q) \<in> (eps_step h)\<^sup>*} \<and>
         S \<subseteq> epsilon_closure h S \<and>
         (\<forall>xs. set xs = S \<longrightarrow> eps_loop h xs S = epsilon_closure h S)"
  using assms by (auto simp: epsilon_closure_eq eps_loop_enum)

lemma star_heap_build: "build_nfa ''a*'' 0 = Inr (\<lparr>start = 2, accept = 3\<rparr>, star_heap, 4)"
  by (simp add: build_nfa_def isalnum_def new_State_def set_edge_def extend_epsilon_def
      numeral_3_eq_3 star_heap_def)

lemma star_heap_closure: "epsilon_closure star_heap {1} = {0, 1, 3}"
  by code_simp

lemma star_star_heap_build:
  "build_nfa ''a**'' 0 = Inr (\<lparr>start = 4, accept = 5\<rparr>, star_star_heap, 6)"
  by (simp add: build_nfa_def isalnum_def new_State_def set_edge_def extend_epsilon_def
      numeral_3_eq_3 star_star_heap_def)

lemma star_star_heap_cycle:
  "(2, 3) \<in> eps_step star_star_heap \<and> (3, 2) \<in> eps_step star_star_heap"
  by (simp add: eps_step_def epsilon_of_def star_star_heap_def numeral_3_eq_3)

lemma star_star_heap_closure: "epsilon_closure star_star_heap {2} = {0, 2, 3, 5}"
  by code_simp

theorem epsilon_closure_reachable_witness:
  "finite {2::nat} \<and> epsilon_closure star_star_heap {2} = {0, 2, 3, 5} \<and>
   {0, 2, 3, 5} = {q. \<exists>p \<in> {2}. (p, q) \<in> (eps_step star_star_heap)\<^sup>*} \<and>
   {2} \<subseteq> epsilon_closure star_star_heap {2} \<and>
   eps_loop star_star_heap [2] {2} = epsilon_closure star_star_heap {2}"
proof -
  have f: "finite {2::nat}" by simp
  have e: "set [2::nat] = {2}" by simp
  from epsilon_closure_reachable [OF f, of star_star_heap]
  have a: "epsilon_closure star_star_heap {2}
           = {q. \<exists>p \<in> {2}. (p, q) \<in> (eps_step star_star_heap)\<^sup>*}"
    and b: "{2} \<subseteq> epsilon_closure star_star_heap {2}"
    and c: "\<forall>xs. set xs = {2} \<longrightarrow>
              eps_loop star_star_heap xs {2} = epsilon_closure star_star_heap {2}"
    by blast+
  from c e have d: "eps_loop star_star_heap [2] {2} = epsilon_closure star_star_heap {2}"
    by blast
  have a': "{0, 2, 3, 5} = {q. \<exists>p \<in> {2}. (p, q) \<in> (eps_step star_star_heap)\<^sup>*}"
    using a unfolding star_star_heap_closure .
  show ?thesis using f star_star_heap_closure a' b d by blast
qed

section \<open>Properties of the subset construction\<close>

lemma map_of_zip_upt_Some:
  "map_of (zip ks [0..<length ks]) k = Some j \<Longrightarrow> j < length ks \<and> ks ! j = k"
proof -
  assume "map_of (zip ks [0..<length ks]) k = Some j"
  then have "(k, j) \<in> set (zip ks [0..<length ks])" by (rule map_of_SomeD)
  then obtain i where "i < length ks" "ks ! i = k" "[0..<length ks] ! i = j"
    by (auto simp: in_set_zip)
  then show ?thesis by simp
qed

lemma map_of_zip_upt_None:
  "map_of (zip ks [0..<length ks]) k = None \<longleftrightarrow> k \<notin> set ks"
proof -
  have "map fst (zip ks [0..<length ks]) = ks" by simp
  then have "fst ` set (zip ks [0..<length ks]) = set ks" by (metis set_map)
  then show ?thesis by (simp add: map_of_eq_None_iff)
qed

lemma zip_upt_snoc:
  "zip (ks @ [k]) [0..<Suc (length ks)] = zip ks [0..<length ks] @ [(k, length ks)]"
  by simp

lemma map_update_same:
  assumes "f y = f (xs ! i)"
  shows "map f (xs[i := y]) = map f xs"
proof (cases "i < length xs")
  case True
  then have "(map f xs)[i := f y] = map f xs"
    using assms by (simp add: list_update_same_conv)
  then show ?thesis by (simp add: map_update)
next
  case False
  then have "xs[i := y] = xs" by (intro list_update_beyond) simp
  then show ?thesis by simp
qed

lemma length_set_transition [simp]: "length (set_transition arena i c j) = length arena"
  by (simp add: set_transition_def)

lemma set_transition_Nil [simp]: "set_transition arena i c j = [] \<longleftrightarrow> arena = []"
  by (simp add: set_transition_def)

lemma map_nfa_states_set_transition [simp]:
  "map nfa_states (set_transition arena i c j) = map nfa_states arena"
  unfolding set_transition_def by (rule map_update_same) simp

lemma map_is_accept_set_transition [simp]:
  "map is_accept (set_transition arena i c j) = map is_accept arena"
  unfolding set_transition_def by (rule map_update_same) simp

lemma map_did_set_transition [simp]:
  "map did (set_transition arena i c j) = map did arena"
  unfolding set_transition_def by (rule map_update_same) simp

lemma nth_set_transition_field:
  "k < length arena \<Longrightarrow> nfa_states (set_transition arena i c j ! k) = nfa_states (arena ! k)"
  "k < length arena \<Longrightarrow> is_accept (set_transition arena i c j ! k) = is_accept (arena ! k)"
  "k < length arena \<Longrightarrow> did (set_transition arena i c j ! k) = did (arena ! k)"
  by (cases "i = k"; simp add: set_transition_def)+

lemma set_transition_fields:
  assumes "s \<in> set (set_transition arena i c j)"
  shows "\<exists>s' \<in> set arena. nfa_states s = nfa_states s' \<and> is_accept s = is_accept s'"
proof -
  from assms obtain k where k: "k < length arena" "s = set_transition arena i c j ! k"
    by (auto simp: in_set_conv_nth)
  then have "nfa_states s = nfa_states (arena ! k)" "is_accept s = is_accept (arena ! k)"
    by (simp_all add: nth_set_transition_field)
  then show ?thesis using k(1) by (intro bexI [of _ "arena ! k"]) simp_all
qed

lemma hd_set_transition:
  "arena \<noteq> [] \<Longrightarrow> nfa_states (hd (set_transition arena i c j)) = nfa_states (hd arena)"
  using nth_set_transition_field(1) [of 0 arena i c j]
  by (simp add: hd_conv_nth)

lemma dfa_symbols_struct:
  assumes "dfa_struct h n A (ds, arena, unmarked, d)" "i < length arena" "set cs \<subseteq> A"
  shows "dfa_struct h n A (dfa_symbols h n i cs (ds, arena, unmarked, d)) \<and>
         length arena \<le> length (fst (snd (dfa_symbols h n i cs (ds, arena, unmarked, d))))"
  using assms
proof (induction cs arbitrary: ds arena unmarked d)
  case Nil
  then show ?case by simp
next
  case (Cons c cs)
  let ?N = "epsilon_closure h (move h (nfa_states (arena ! i)) c)"
  from Cons.prems have cA: "c \<in> A" and csA: "set cs \<subseteq> A" by auto
  from Cons.prems(1) have
    W: "ds = zip (map nfa_states arena) [0..<length arena]"
    and D: "distinct (map nfa_states arena)"
    and U: "set unmarked \<subseteq> {..<length arena}" "distinct unmarked"
    and H: "arena \<noteq> []" "nfa_states (hd arena) = epsilon_closure h {start n}"
    and K: "\<forall>s \<in> set arena. nfa_states s \<in> subsets_reached h n A \<and>
                          is_accept s = (accept n \<in> nfa_states s)"
    by (auto simp: dfa_struct_def)
  show ?case
  proof (cases "?N = {}")
    case True
    then show ?thesis using Cons.IH [OF Cons.prems(1,2) csA] by simp
  next
    case False
    show ?thesis
    proof (cases "map_of ds ?N")
      case (Some j)
      let ?arena = "set_transition arena i c j"
      have "dfa_struct h n A (ds, ?arena, unmarked, d)"
        unfolding dfa_struct_def using W D U H K
        by (auto simp: hd_set_transition dest!: set_transition_fields)
      moreover have "i < length ?arena" using Cons.prems(2) by simp
      ultimately have "dfa_struct h n A (dfa_symbols h n i cs (ds, ?arena, unmarked, d)) \<and>
         length ?arena \<le> length (fst (snd (dfa_symbols h n i cs (ds, ?arena, unmarked, d))))"
        using csA by (rule Cons.IH)
      then show ?thesis using False Some by (simp add: Let_def)
    next
      case None
      let ?j = "length arena"
      let ?new = "new_DFAState ?N (accept n \<in> ?N) d"
      let ?arena = "set_transition (arena @ [?new]) i c ?j"
      let ?ds = "ds @ [(?N, ?j)]"
      have new: "?N \<notin> set (map nfa_states arena)"
        using None W by (simp add: map_of_zip_upt_None del: set_map)
      have Nr: "?N \<in> subsets_reached h n A"
        using K Cons.prems(2) cA False by (auto intro!: subsets_reached.step)
      have f: "nfa_states ?new = ?N" "is_accept ?new = (accept n \<in> ?N)"
        by (simp_all add: new_DFAState_def)
      have "dfa_struct h n A (?ds, ?arena, ?j # unmarked, d + 1)"
        unfolding dfa_struct_def using W D U H K new Nr f
        by (auto simp: hd_set_transition dest!: set_transition_fields)
      moreover have "i < length ?arena" using Cons.prems(2) by simp
      ultimately have "dfa_struct h n A (dfa_symbols h n i cs (?ds, ?arena, ?j # unmarked, d + 1)) \<and>
         length ?arena \<le> length (fst (snd (dfa_symbols h n i cs (?ds, ?arena, ?j # unmarked, d + 1))))"
        using csA by (rule Cons.IH)
      then show ?thesis using False None by (simp add: Let_def)
    qed
  qed
qed

lemma nfa_to_dfa_loop_struct:
  assumes "dfa_struct h n A st" "set alphabet \<subseteq> A"
  shows "dfa_struct h n A (nfa_to_dfa_loop h n alphabet st)"
  using assms
proof (induction h n alphabet st rule: nfa_to_dfa_loop.induct)
  case (1 h n alphabet ds arena d)
  then show ?case by simp
next
  case (2 h n alphabet ds arena i unmarked d)
  have s: "dfa_struct h n A (ds, arena, unmarked, d)" and i: "i < length arena"
    using "2.prems"(1) by (auto simp: dfa_struct_def)
  have "dfa_struct h n A (dfa_symbols h n i alphabet (ds, arena, unmarked, d))"
    using dfa_symbols_struct [OF s i "2.prems"(2)] by blast
  then show ?case using "2.IH" "2.prems"(2) by simp
qed

lemma dfa_struct_initial:
  "dfa_struct h n A
     ([(epsilon_closure h {start n}, 0)],
      [new_DFAState (epsilon_closure h {start n}) (accept n \<in> epsilon_closure h {start n}) d],
      [0], d + 1)"
  by (simp add: dfa_struct_def new_DFAState_def subsets_reached.start)

lemma dfa_struct_values:
  assumes "dfa_struct h n A (ds, arena, unmarked, d)"
  shows "map (\<lambda>(key, j). arena ! j) ds = arena"
proof -
  have ds: "ds = zip (map nfa_states arena) [0..<length arena]"
    using assms by (simp add: dfa_struct_def)
  have "map (\<lambda>(key, j). arena ! j) ds = map ((!) arena) (map snd ds)"
    by (induction ds) auto
  also have "map snd ds = [0..<length arena]"
    unfolding ds by simp
  finally show ?thesis by (simp add: map_nth)
qed

lemma dfa_final_struct: "dfa_struct h n (set alphabet) (dfa_final h n alphabet d)"
  unfolding dfa_final_def by (rule nfa_to_dfa_loop_struct [OF dfa_struct_initial]) simp

lemma nfa_to_dfa_arena:
  "fst (nfa_to_dfa h n alphabet d) = fst (snd (dfa_final h n alphabet d))"
proof -
  obtain ds arena unmarked d' where f: "dfa_final h n alphabet d = (ds, arena, unmarked, d')"
    by (cases "dfa_final h n alphabet d")
  then have "dfa_struct h n (set alphabet) (ds, arena, unmarked, d')"
    using dfa_final_struct [of h n alphabet d] by simp
  then have "map (\<lambda>(key, j). arena ! j) ds = arena" by (rule dfa_struct_values)
  then show ?thesis using f by (simp add: nfa_to_dfa_def dfa_final_def Let_def)
qed

lemma nfa_to_dfa_struct:
  "\<exists>ds unmarked d'. dfa_struct h n (set alphabet) (ds, fst (nfa_to_dfa h n alphabet d), unmarked, d')"
proof -
  obtain ds arena unmarked d' where f: "dfa_final h n alphabet d = (ds, arena, unmarked, d')"
    by (cases "dfa_final h n alphabet d")
  then show ?thesis using dfa_final_struct [of h n alphabet d]
    by (auto simp: nfa_to_dfa_arena)
qed

text \<open>
  Claim C10. The list returned by \<^verbatim>\<open>nfa_to_dfa\<close> is never empty and its first element is
  the start state of the DFA: the state whose subset is \<^verbatim>\<open>epsilon_closure({nfa.start})\<close>.
\<close>

theorem nfa_to_dfa_start_first:
  "fst (nfa_to_dfa h n alphabet d) \<noteq> [] \<and>
   nfa_states (hd (fst (nfa_to_dfa h n alphabet d))) = epsilon_closure h {start n}"
  using nfa_to_dfa_struct [of h n alphabet d] by (auto simp: dfa_struct_def)

lemma nfa_to_dfa_distinct: "distinct (map nfa_states (fst (nfa_to_dfa h n alphabet d)))"
  using nfa_to_dfa_struct [of h n alphabet d] by (auto simp: dfa_struct_def)

lemma nfa_to_dfa_keys_reached:
  "set (map nfa_states (fst (nfa_to_dfa h n alphabet d))) \<subseteq> subsets_reached h n (set alphabet)"
  using nfa_to_dfa_struct [of h n alphabet d] by (auto simp: dfa_struct_def)

lemma edges_of_targets: "edges_of h p c = Some ts \<Longrightarrow> set ts \<subseteq> edge_targets h"
  using move_targets [of h "{p}" c] by (simp add: move_def)

lemma nfa_step_targets: "(p, q) \<in> nfa_step h \<Longrightarrow> q \<in> edge_targets h \<union> epsilon_targets h"
  using epsilon_of_targets [of h p] edges_of_targets [of h p]
  by (auto simp: nfa_step_def)

lemma finite_nfa_reachable: "finite (nfa_reachable h q)"
proof -
  have "nfa_reachable h q \<subseteq> insert q (edge_targets h \<union> epsilon_targets h)"
  proof
    fix x assume "x \<in> nfa_reachable h q"
    then have "(q, x) \<in> (nfa_step h)\<^sup>*" by (simp add: nfa_reachable_def)
    then show "x \<in> insert q (edge_targets h \<union> epsilon_targets h)"
      by (cases rule: rtranclE) (use nfa_step_targets in auto)
  qed
  then show ?thesis
    by (rule finite_subset) (simp add: finite_edge_targets finite_epsilon_targets)
qed

lemma finite_move: "finite (move h S c)"
  by (rule finite_subset [OF move_targets finite_edge_targets])

lemma eps_step_nfa_step: "eps_step h \<subseteq> nfa_step h"
  by (auto simp: eps_step_def nfa_step_def)

lemma epsilon_closure_reachable_subset:
  assumes "finite S" "S \<subseteq> nfa_reachable h q"
  shows "epsilon_closure h S \<subseteq> nfa_reachable h q"
proof -
  have "(eps_step h)\<^sup>* \<subseteq> (nfa_step h)\<^sup>*" by (rule rtrancl_mono [OF eps_step_nfa_step])
  then have "(eps_step h)\<^sup>* `` S \<subseteq> (nfa_step h)\<^sup>* `` ((nfa_step h)\<^sup>* `` {q})"
    using assms(2) unfolding nfa_reachable_def by blast
  also have "\<dots> = (nfa_step h)\<^sup>* `` {q}" by (auto intro: rtrancl_trans)
  finally show ?thesis using assms(1) by (simp add: epsilon_closure_eq nfa_reachable_def)
qed

lemma move_reachable_subset:
  assumes "S \<subseteq> nfa_reachable h q"
  shows "move h S c \<subseteq> nfa_reachable h q"
proof
  fix x assume "x \<in> move h S c"
  then obtain p ts where p: "p \<in> S" "edges_of h p c = Some ts" "x \<in> set ts"
    by (auto simp: move_def split: option.splits)
  then have "(p, x) \<in> nfa_step h" by (auto simp: nfa_step_def)
  moreover have "(q, p) \<in> (nfa_step h)\<^sup>*" using assms p(1) by (auto simp: nfa_reachable_def)
  ultimately show "x \<in> nfa_reachable h q" by (auto simp: nfa_reachable_def)
qed

lemma subsets_reached_reachable:
  "S \<in> subsets_reached h n A \<Longrightarrow> S \<subseteq> nfa_reachable h (start n)"
proof (induction rule: subsets_reached.induct)
  case start
  show ?case by (rule epsilon_closure_reachable_subset) (simp_all add: nfa_reachable_def)
next
  case (step S c)
  show ?case
    by (rule epsilon_closure_reachable_subset [OF finite_move move_reachable_subset [OF step.IH]])
qed

lemma nfa_to_dfa_loop_empties:
  "fst (snd (snd (nfa_to_dfa_loop h n alphabet st))) = []"
  by (induction h n alphabet st rule: nfa_to_dfa_loop.induct) simp_all

text \<open>
  Claim C6. \<^verbatim>\<open>nfa_to_dfa\<close> terminates on every arena and alphabet: its loops are total
  functions (the worklist loop descends on the number of undiscovered subsets and the
  length of the worklist) and the loop stops with an empty worklist. The number of DFA
  states it returns is at most 2 to the number of NFA states reachable from the start
  state of the NFA.
\<close>

theorem nfa_to_dfa_state_bound:
  "fst (snd (snd (dfa_final h n alphabet d))) = [] \<and>
   length (fst (nfa_to_dfa h n alphabet d)) \<le> 2 ^ card (nfa_reachable h (start n))"
proof (rule conjI)
  show "fst (snd (snd (dfa_final h n alphabet d))) = []"
    unfolding dfa_final_def by (rule nfa_to_dfa_loop_empties)
next
  show "length (fst (nfa_to_dfa h n alphabet d)) \<le> 2 ^ card (nfa_reachable h (start n))"
  proof -
  let ?L = "fst (nfa_to_dfa h n alphabet d)" and ?R = "nfa_reachable h (start n)"
  have "length ?L = card (set (map nfa_states ?L))"
    using distinct_card [OF nfa_to_dfa_distinct [of h n alphabet d]] by simp
  also have "set (map nfa_states ?L) \<subseteq> Pow ?R"
    using nfa_to_dfa_keys_reached [of h n alphabet d] subsets_reached_reachable [of _ h n]
    by blast
  then have "card (set (map nfa_states ?L)) \<le> card (Pow ?R)"
    by (intro card_mono) (simp_all add: finite_nfa_reachable)
  also have "card (Pow ?R) = 2 ^ card ?R"
    by (rule card_Pow [OF finite_nfa_reachable])
  finally show ?thesis .
  qed
qed

subsection \<open>The transition tables\<close>

lemma nth_set_transition_other:
  "j \<noteq> i \<Longrightarrow> set_transition arena i c t ! j = arena ! j"
  by (simp add: set_transition_def)

lemma transitions_set_transition_same:
  "i < length arena \<Longrightarrow>
   transitions (set_transition arena i c t ! i) = (transitions (arena ! i))(c \<mapsto> t)"
  by (simp add: set_transition_def)

lemma nfa_states_set_transition:
  "nfa_states (set_transition arena i c t ! k) = nfa_states (arena ! k)"
proof (cases "k < length arena")
  case True
  then show ?thesis by (rule nth_set_transition_field)
next
  case False
  have "set_transition arena i c t ! k = arena ! k"
  proof (cases "i < length arena")
    case True
    then have "k \<noteq> i" using False by auto
    then show ?thesis by (simp add: set_transition_def)
  next
    case False
    then have "set_transition arena i c t = arena"
      unfolding set_transition_def by (intro list_update_beyond) simp
    then show ?thesis by simp
  qed
  then show ?thesis by simp
qed

lemma trans_ok_set_transition_other:
  assumes "j \<noteq> i" "trans_ok h A arena j"
  shows "trans_ok h A (set_transition arena i c t) j"
  using assms unfolding trans_ok_def
  by (simp add: nth_set_transition_other nfa_states_set_transition)

lemma trans_ok_append:
  assumes "j < length arena" "trans_ok h A arena j"
  shows "trans_ok h A (arena @ [x]) j"
  unfolding trans_ok_def
proof (intro allI)
  fix c
  let ?N = "epsilon_closure h (move h (nfa_states (arena ! j)) c)"
  have j: "(arena @ [x]) ! j = arena ! j" using assms(1) by (simp add: nth_append)
  show "if c \<in> A \<and> epsilon_closure h (move h (nfa_states ((arena @ [x]) ! j)) c) \<noteq> {}
        then \<exists>t<length (arena @ [x]). transitions ((arena @ [x]) ! j) c = Some t \<and>
               nfa_states ((arena @ [x]) ! t) = epsilon_closure h (move h (nfa_states ((arena @ [x]) ! j)) c)
        else transitions ((arena @ [x]) ! j) c = None"
  proof (cases "c \<in> A \<and> ?N \<noteq> {}")
    case True
    then obtain t where t: "t < length arena" "transitions (arena ! j) c = Some t"
      "nfa_states (arena ! t) = ?N"
      using assms(2) unfolding trans_ok_def by (metis (no_types, lifting))
    then have "t < length (arena @ [x])" "(arena @ [x]) ! t = arena ! t"
      by (simp_all add: nth_append)
    then show ?thesis using True t j by auto
  next
    case False
    then have "transitions (arena ! j) c = None"
      using assms(2) unfolding trans_ok_def by (metis (no_types, lifting))
    then show ?thesis using False j by auto
  qed
qed

lemma trans_ok_skip:
  assumes "trans_ok h seen arena i"
    "epsilon_closure h (move h (nfa_states (arena ! i)) c) = {}"
  shows "trans_ok h (insert c seen) arena i"
  unfolding trans_ok_def
proof (intro allI)
  fix c'
  let ?N = "epsilon_closure h (move h (nfa_states (arena ! i)) c')"
  have old: "if c' \<in> seen \<and> ?N \<noteq> {}
        then \<exists>t<length arena. transitions (arena ! i) c' = Some t \<and> nfa_states (arena ! t) = ?N
        else transitions (arena ! i) c' = None"
    using assms(1) unfolding trans_ok_def by blast
  show "if c' \<in> insert c seen \<and> ?N \<noteq> {}
        then \<exists>t<length arena. transitions (arena ! i) c' = Some t \<and> nfa_states (arena ! t) = ?N
        else transitions (arena ! i) c' = None"
  proof (cases "c' = c")
    case True
    then show ?thesis using old assms(2) by simp
  next
    case False
    then show ?thesis using old by simp
  qed
qed

lemma trans_ok_record:
  assumes "trans_ok h seen arena i" "i < length arena" "t < length arena"
    "nfa_states (arena ! t) = epsilon_closure h (move h (nfa_states (arena ! i)) c)"
    "epsilon_closure h (move h (nfa_states (arena ! i)) c) \<noteq> {}"
  shows "trans_ok h (insert c seen) (set_transition arena i c t) i"
  unfolding trans_ok_def
proof (intro allI)
  fix c'
  let ?a = "set_transition arena i c t"
  let ?N = "epsilon_closure h (move h (nfa_states (arena ! i)) c')"
  have old: "if c' \<in> seen \<and> ?N \<noteq> {}
        then \<exists>t<length arena. transitions (arena ! i) c' = Some t \<and> nfa_states (arena ! t) = ?N
        else transitions (arena ! i) c' = None"
    using assms(1) unfolding trans_ok_def by blast
  have tr: "transitions (?a ! i) = (transitions (arena ! i))(c \<mapsto> t)"
    using assms(2) by (rule transitions_set_transition_same)
  have goal: "if c' \<in> insert c seen \<and> ?N \<noteq> {}
        then \<exists>t'<length arena. transitions (?a ! i) c' = Some t' \<and> nfa_states (arena ! t') = ?N
        else transitions (?a ! i) c' = None"
  proof (cases "c' = c")
    case True
    then show ?thesis using assms(3,4,5) tr by simp
  next
    case False
    then show ?thesis using old tr by simp
  qed
  then show "if c' \<in> insert c seen \<and>
                 epsilon_closure h (move h (nfa_states (?a ! i)) c') \<noteq> {}
        then \<exists>t'<length ?a. transitions (?a ! i) c' = Some t' \<and>
               nfa_states (?a ! t') = epsilon_closure h (move h (nfa_states (?a ! i)) c')
        else transitions (?a ! i) c' = None"
    by (simp add: nfa_states_set_transition)
qed

lemma dfa_struct_lookup:
  assumes "dfa_struct h n A (ds, arena, unmarked, d)" "map_of ds N = Some j"
  shows "j < length arena \<and> nfa_states (arena ! j) = N"
proof -
  have "ds = zip (map nfa_states arena) [0..<length (map nfa_states arena)]"
    using assms(1) by (simp add: dfa_struct_def)
  with assms(2) have "j < length (map nfa_states arena) \<and> map nfa_states arena ! j = N"
    using map_of_zip_upt_Some [of "map nfa_states arena" N j] by simp
  then show ?thesis using nth_map [of j arena nfa_states] by auto
qed

lemma dfa_struct_found:
  assumes "dfa_struct h n A (ds, arena, unmarked, d)"
  shows "dfa_struct h n A (ds, set_transition arena i c j, unmarked, d)"
  using assms unfolding dfa_struct_def
  by (auto simp: hd_set_transition dest!: set_transition_fields)

lemma dfa_struct_fresh:
  assumes "dfa_struct h n A (ds, arena, unmarked, d)" "i < length arena" "c \<in> A"
    "N = epsilon_closure h (move h (nfa_states (arena ! i)) c)" "N \<noteq> {}" "map_of ds N = None"
  shows "dfa_struct h n A
           (ds @ [(N, length arena)],
            set_transition (arena @ [new_DFAState N (accept n \<in> N) d]) i c (length arena),
            length arena # unmarked, d + 1)"
proof -
  from assms(1) have
    W: "ds = zip (map nfa_states arena) [0..<length arena]"
    and D: "distinct (map nfa_states arena)"
    and U: "set unmarked \<subseteq> {..<length arena}" "distinct unmarked"
    and H: "arena \<noteq> []" "nfa_states (hd arena) = epsilon_closure h {start n}"
    and K: "\<forall>s \<in> set arena. nfa_states s \<in> subsets_reached h n A \<and>
                          is_accept s = (accept n \<in> nfa_states s)"
    by (auto simp: dfa_struct_def)
  have new: "N \<notin> set (map nfa_states arena)"
    using assms(6) W by (simp add: map_of_zip_upt_None del: set_map)
  have Nr: "N \<in> subsets_reached h n A"
    using K assms(2-5) by (auto intro!: subsets_reached.step)
  have f: "nfa_states (new_DFAState N (accept n \<in> N) d) = N"
    "is_accept (new_DFAState N (accept n \<in> N) d) = (accept n \<in> N)"
    by (simp_all add: new_DFAState_def)
  show ?thesis
    unfolding dfa_struct_def using W D U H K new Nr f
    by (auto simp: hd_set_transition dest!: set_transition_fields)
qed

lemma dfa_inner_skip:
  assumes "dfa_inner h A i seen (ds, arena, unmarked, d)"
    "epsilon_closure h (move h (nfa_states (arena ! i)) c) = {}"
  shows "dfa_inner h A i (insert c seen) (ds, arena, unmarked, d)"
  using assms trans_ok_skip [of h seen arena i c] by (simp add: dfa_inner_def)

lemma dfa_inner_found:
  assumes "dfa_inner h A i seen (ds, arena, unmarked, d)" "j < length arena"
    "nfa_states (arena ! j) = epsilon_closure h (move h (nfa_states (arena ! i)) c)"
    "epsilon_closure h (move h (nfa_states (arena ! i)) c) \<noteq> {}"
  shows "dfa_inner h A i (insert c seen) (ds, set_transition arena i c j, unmarked, d)"
proof -
  let ?a = "set_transition arena i c j"
  from assms(1) have i: "i < length arena" "i \<notin> set unmarked"
    and m: "\<forall>k < length arena. k \<notin> set unmarked \<longrightarrow> k \<noteq> i \<longrightarrow> trans_ok h A arena k"
    and u: "\<forall>k \<in> set unmarked. transitions (arena ! k) = Map.empty"
    and t: "trans_ok h seen arena i"
    by (auto simp: dfa_inner_def)
  have 1: "\<forall>k < length ?a. k \<notin> set unmarked \<longrightarrow> k \<noteq> i \<longrightarrow> trans_ok h A ?a k"
    using m by (auto intro: trans_ok_set_transition_other)
  have 2: "\<forall>k \<in> set unmarked. transitions (?a ! k) = Map.empty"
  proof
    fix k assume k: "k \<in> set unmarked"
    then have "k \<noteq> i" using i by auto
    then show "transitions (?a ! k) = Map.empty"
      using u k by (simp add: nth_set_transition_other)
  qed
  have 3: "trans_ok h (insert c seen) ?a i"
    using t i(1) assms(2,3,4) by (rule trans_ok_record)
  show ?thesis unfolding dfa_inner_def using i 1 2 3 by simp
qed

lemma dfa_inner_fresh:
  assumes "dfa_inner h A i seen (ds, arena, unmarked, d)"
    "set unmarked \<subseteq> {..<length arena}"
    "N = epsilon_closure h (move h (nfa_states (arena ! i)) c)" "N \<noteq> {}"
  shows "dfa_inner h A i (insert c seen)
           (ds @ [(N, length arena)],
            set_transition (arena @ [new_DFAState N (accept n \<in> N) d]) i c (length arena),
            length arena # unmarked, d + 1)"
proof -
  let ?new = "new_DFAState N (accept n \<in> N) d"
  let ?a1 = "arena @ [?new]"
  let ?l = "length arena"
  from assms(1) have i: "i < length arena" "i \<notin> set unmarked"
    and m: "\<forall>k < length arena. k \<notin> set unmarked \<longrightarrow> k \<noteq> i \<longrightarrow> trans_ok h A arena k"
    and u: "\<forall>k \<in> set unmarked. transitions (arena ! k) = Map.empty"
    and t: "trans_ok h seen arena i"
    by (auto simp: dfa_inner_def)
  have il: "i \<noteq> ?l" using i by simp
  have a1i: "?a1 ! i = arena ! i" using i by (simp add: nth_append)
  have m1: "\<forall>k < length arena. k \<notin> set unmarked \<longrightarrow> k \<noteq> i \<longrightarrow> trans_ok h A ?a1 k"
    using m by (auto intro: trans_ok_append)
  have u1: "\<forall>k \<in> set (?l # unmarked). transitions (?a1 ! k) = Map.empty"
    using u assms(2) by (auto simp: nth_append new_DFAState_def)
  have t1: "trans_ok h seen ?a1 i" using i(1) t by (rule trans_ok_append)
  have inner1: "dfa_inner h A i seen (ds @ [(N, ?l)], ?a1, ?l # unmarked, d + 1)"
    unfolding dfa_inner_def using i il m1 u1 t1 by (auto simp: less_Suc_eq)
  have "nfa_states (?a1 ! ?l) = epsilon_closure h (move h (nfa_states (?a1 ! i)) c)"
    using assms(3) a1i by (simp add: new_DFAState_def)
  moreover have "epsilon_closure h (move h (nfa_states (?a1 ! i)) c) \<noteq> {}"
    using assms(3,4) a1i by simp
  moreover have "?l < length ?a1" by simp
  ultimately show ?thesis using dfa_inner_found [OF inner1] by blast
qed

lemma dfa_symbols_inner:
  assumes "dfa_struct h n A (ds, arena, unmarked, d)"
    "dfa_inner h A i seen (ds, arena, unmarked, d)" "set cs \<subseteq> A"
  shows "dfa_struct h n A (dfa_symbols h n i cs (ds, arena, unmarked, d)) \<and>
         dfa_inner h A i (seen \<union> set cs) (dfa_symbols h n i cs (ds, arena, unmarked, d))"
  using assms
proof (induction cs arbitrary: ds arena unmarked d seen)
  case Nil
  then show ?case by simp
next
  case (Cons c cs)
  let ?N = "epsilon_closure h (move h (nfa_states (arena ! i)) c)"
  from Cons.prems have cA: "c \<in> A" and csA: "set cs \<subseteq> A" by auto
  have i: "i < length arena" using Cons.prems(2) by (simp add: dfa_inner_def)
  have U: "set unmarked \<subseteq> {..<length arena}" using Cons.prems(1) by (simp add: dfa_struct_def)
  have un: "seen \<union> set (c # cs) = insert c seen \<union> set cs" by auto
  show ?case
  proof (cases "?N = {}")
    case True
    have "dfa_inner h A i (insert c seen) (ds, arena, unmarked, d)"
      using Cons.prems(2) True by (rule dfa_inner_skip)
    from Cons.IH [OF Cons.prems(1) this csA] show ?thesis
      unfolding un using True by simp
  next
    case False
    show ?thesis
    proof (cases "map_of ds ?N")
      case (Some j)
      have j: "j < length arena" "nfa_states (arena ! j) = ?N"
        using dfa_struct_lookup [OF Cons.prems(1) Some] by simp_all
      have s: "dfa_struct h n A (ds, set_transition arena i c j, unmarked, d)"
        using Cons.prems(1) by (rule dfa_struct_found)
      have "dfa_inner h A i (insert c seen) (ds, set_transition arena i c j, unmarked, d)"
        using Cons.prems(2) j False by (rule dfa_inner_found)
      from Cons.IH [OF s this csA] show ?thesis
        unfolding un using False Some by (simp add: Let_def)
    next
      case None
      have s: "dfa_struct h n A
           (ds @ [(?N, length arena)],
            set_transition (arena @ [new_DFAState ?N (accept n \<in> ?N) d]) i c (length arena),
            length arena # unmarked, d + 1)"
        using Cons.prems(1) i cA refl False None by (rule dfa_struct_fresh)
      have "dfa_inner h A i (insert c seen)
           (ds @ [(?N, length arena)],
            set_transition (arena @ [new_DFAState ?N (accept n \<in> ?N) d]) i c (length arena),
            length arena # unmarked, d + 1)"
        using Cons.prems(2) U refl False by (rule dfa_inner_fresh)
      from Cons.IH [OF s this csA] show ?thesis
        unfolding un using False None by (simp add: Let_def)
    qed
  qed
qed

lemma trans_ok_empty:
  "transitions (arena ! i) = Map.empty \<Longrightarrow> trans_ok h {} arena i"
  by (simp add: trans_ok_def)

lemma nfa_to_dfa_loop_outer:
  assumes "dfa_struct h n (set alphabet) st" "dfa_outer h (set alphabet) st"
  shows "dfa_outer h (set alphabet) (nfa_to_dfa_loop h n alphabet st) \<and>
         fst (snd (snd (nfa_to_dfa_loop h n alphabet st))) = []"
  using assms
proof (induction h n alphabet st rule: nfa_to_dfa_loop.induct)
  case (1 h n alphabet ds arena d)
  then show ?case by simp
next
  case (2 h n alphabet ds arena i unmarked d)
  let ?A = "set alphabet"
  have s: "dfa_struct h n ?A (ds, arena, unmarked, d)" and i: "i < length arena"
    and iu: "i \<notin> set unmarked"
    using "2.prems"(1) by (auto simp: dfa_struct_def)
  have inner: "dfa_inner h ?A i {} (ds, arena, unmarked, d)"
    using "2.prems"(2) i iu unfolding dfa_inner_def dfa_outer_def
    by (auto intro: trans_ok_empty)
  obtain ds' arena' unmarked' d' where
    r: "dfa_symbols h n i alphabet (ds, arena, unmarked, d) = (ds', arena', unmarked', d')"
    by (cases "dfa_symbols h n i alphabet (ds, arena, unmarked, d)")
  from dfa_symbols_inner [OF s inner subset_refl]
  have s': "dfa_struct h n ?A (ds', arena', unmarked', d')"
    and inner': "dfa_inner h ?A i ?A (ds', arena', unmarked', d')"
    unfolding r by simp_all
  have "dfa_outer h ?A (ds', arena', unmarked', d')"
    using inner' unfolding dfa_inner_def dfa_outer_def by auto
  from "2.IH" [unfolded r, OF s' this] show ?case using r by simp
qed

subsection \<open>The DFA against the NFA\<close>

lemma dfa_outer_initial:
  "dfa_outer h A ([(S, 0)], [new_DFAState S b d], [0], d + 1)"
  by (simp add: dfa_outer_def new_DFAState_def)

lemma nfa_to_dfa_complete:
  assumes "j < length (fst (nfa_to_dfa h n alphabet d))"
  shows "trans_ok h (set alphabet) (fst (nfa_to_dfa h n alphabet d)) j"
proof -
  obtain ds arena unmarked d' where f: "dfa_final h n alphabet d = (ds, arena, unmarked, d')"
    by (cases "dfa_final h n alphabet d")
  have "dfa_outer h (set alphabet) (dfa_final h n alphabet d) \<and>
        fst (snd (snd (dfa_final h n alphabet d))) = []"
    unfolding dfa_final_def
    by (rule nfa_to_dfa_loop_outer [OF dfa_struct_initial dfa_outer_initial])
  then have "\<forall>j < length arena. trans_ok h (set alphabet) arena j"
    using f by (simp add: dfa_outer_def)
  then show ?thesis using assms f by (simp add: nfa_to_dfa_arena)
qed

lemma nfa_to_dfa_flags:
  assumes "j < length (fst (nfa_to_dfa h n alphabet d))"
  shows "is_accept (fst (nfa_to_dfa h n alphabet d) ! j)
         = (accept n \<in> nfa_states (fst (nfa_to_dfa h n alphabet d) ! j))"
  using nfa_to_dfa_struct [of h n alphabet d] assms by (auto simp: dfa_struct_def)

lemma epsilon_closure_empty [simp]: "epsilon_closure h {} = {}"
  by (simp add: epsilon_closure_def)

lemma move_empty [simp]: "move h {} c = {}"
  by (simp add: move_def)

lemma subset_run_empty [simp]: "subset_run h {} w = {}"
  by (induction w) simp_all

lemma dfa_run_subset_run:
  assumes ok: "\<forall>j < length D. trans_ok h A D j"
    and fl: "\<forall>j < length D. is_accept (D ! j) = (a \<in> nfa_states (D ! j))"
  shows "q < length D \<Longrightarrow> set w \<subseteq> A \<Longrightarrow>
         dfa_run D q w \<longleftrightarrow> a \<in> subset_run h (nfa_states (D ! q)) w"
proof (induction w arbitrary: q)
  case Nil
  then show ?case using fl by simp
next
  case (Cons c w)
  let ?N = "epsilon_closure h (move h (nfa_states (D ! q)) c)"
  have c: "c \<in> A" and w: "set w \<subseteq> A" using Cons.prems(2) by auto
  have t: "if c \<in> A \<and> ?N \<noteq> {}
           then \<exists>t < length D. transitions (D ! q) c = Some t \<and> nfa_states (D ! t) = ?N
           else transitions (D ! q) c = None"
    using ok Cons.prems(1) unfolding trans_ok_def by blast
  show ?case
  proof (cases "?N = {}")
    case True
    then show ?thesis using t by simp
  next
    case False
    then obtain t' where t': "t' < length D" "transitions (D ! q) c = Some t'"
      "nfa_states (D ! t') = ?N"
      using t c by auto
    then show ?thesis using Cons.IH [OF t'(1) w] by simp
  qed
qed

lemma nfa_to_dfa_subset_run:
  assumes "set w \<subseteq> set alphabet"
  shows "dfa_accepts (fst (nfa_to_dfa h n alphabet d)) w
         \<longleftrightarrow> accept n \<in> subset_run h (epsilon_closure h {start n}) w"
proof -
  let ?D = "fst (nfa_to_dfa h n alphabet d)"
  have ne: "?D \<noteq> []" and hd: "nfa_states (hd ?D) = epsilon_closure h {start n}"
    using nfa_to_dfa_struct [of h n alphabet d] by (auto simp: dfa_struct_def)
  then have 0: "0 < length ?D" "nfa_states (?D ! 0) = epsilon_closure h {start n}"
    by (simp_all add: hd_conv_nth)
  have "dfa_run ?D 0 w \<longleftrightarrow> accept n \<in> subset_run h (nfa_states (?D ! 0)) w"
    by (rule dfa_run_subset_run [OF _ _ 0(1) assms])
       (simp_all add: nfa_to_dfa_complete nfa_to_dfa_flags)
  then show ?thesis using 0(2) by (simp add: dfa_accepts_def)
qed

lemma nfa_path_eps_star:
  "(p, q) \<in> (eps_step h)\<^sup>* \<Longrightarrow> nfa_path h q w r \<Longrightarrow> nfa_path h p w r"
  by (induction rule: converse_rtrancl_induct)
     (auto simp: eps_step_def intro: path_eps)

lemma nfa_path_Nil: "nfa_path h p [] q \<longleftrightarrow> (p, q) \<in> (eps_step h)\<^sup>*"
proof
  assume "nfa_path h p [] q"
  then show "(p, q) \<in> (eps_step h)\<^sup>*"
  proof (induction p "[] :: string" q rule: nfa_path.induct)
    case (path_refl p)
    then show ?case by simp
  next
    case (path_eps q p r)
    then have "(p, q) \<in> eps_step h" by (simp add: eps_step_def)
    then show ?case using path_eps by (auto intro: converse_rtrancl_into_rtrancl)
  qed
next
  assume "(p, q) \<in> (eps_step h)\<^sup>*"
  then show "nfa_path h p [] q" by (rule nfa_path_eps_star) (rule path_refl)
qed

lemma nfa_path_Cons:
  "nfa_path h p (c # w) r \<longleftrightarrow>
     (\<exists>p' q. (p, p') \<in> (eps_step h)\<^sup>* \<and> q \<in> move h {p'} c \<and> nfa_path h q w r)"
proof
  assume "nfa_path h p (c # w) r"
  then show "\<exists>p' q. (p, p') \<in> (eps_step h)\<^sup>* \<and> q \<in> move h {p'} c \<and> nfa_path h q w r"
  proof (induction p "c # w" r rule: nfa_path.induct)
    case (path_eps q p r)
    then obtain p' q' where "(q, p') \<in> (eps_step h)\<^sup>*" "q' \<in> move h {p'} c" "nfa_path h q' w r"
      by blast
    moreover have "(p, q) \<in> eps_step h" using path_eps(1) by (simp add: eps_step_def)
    ultimately show ?case by (blast intro: converse_rtrancl_into_rtrancl)
  next
    case (path_sym p ts q r)
    then have "q \<in> move h {p} c" by (simp add: move_def)
    then show ?case using path_sym by blast
  qed
next
  assume "\<exists>p' q. (p, p') \<in> (eps_step h)\<^sup>* \<and> q \<in> move h {p'} c \<and> nfa_path h q w r"
  then obtain p' q where a: "(p, p') \<in> (eps_step h)\<^sup>*" "q \<in> move h {p'} c" "nfa_path h q w r"
    by blast
  from a(2) obtain ts where "edges_of h p' c = Some ts" "q \<in> set ts"
    by (auto simp: move_def split: option.splits)
  then have "nfa_path h p' (c # w) r" using a(3) by (rule path_sym)
  with a(1) show "nfa_path h p (c # w) r" by (rule nfa_path_eps_star)
qed

lemma move_Union: "move h S c = (\<Union>p \<in> S. move h {p} c)"
  by (simp add: move_def)

lemma finite_epsilon_closure: "finite S \<Longrightarrow> finite (epsilon_closure h S)"
  using eps_loop_bound [of h "sorted_list_of_set S" S]
  by (auto simp: epsilon_closure_def intro: finite_subset finite_epsilon_targets)

lemma subset_run_paths:
  assumes "finite S" "(eps_step h)\<^sup>* `` S = S"
  shows "subset_run h S w = {r. \<exists>p \<in> S. nfa_path h p w r}"
  using assms
proof (induction w arbitrary: S)
  case Nil
  have "{r. \<exists>p \<in> S. nfa_path h p [] r} = (eps_step h)\<^sup>* `` S"
    by (auto simp: nfa_path_Nil)
  then show ?case using Nil by simp
next
  case (Cons c w)
  let ?E = "(eps_step h)\<^sup>*"
  let ?M = "move h S c"
  let ?S' = "epsilon_closure h ?M"
  have S': "?S' = ?E `` ?M" by (rule epsilon_closure_eq [OF finite_move])
  have fin: "finite ?S'" by (rule finite_epsilon_closure [OF finite_move])
  have closed: "?E `` ?S' = ?S'" unfolding S' by (auto intro: rtrancl_trans)
  have "subset_run h S (c # w) = {r. \<exists>p \<in> ?S'. nfa_path h p w r}"
    using Cons.IH [OF fin closed] by simp
  also have "\<dots> = {r. \<exists>q \<in> ?M. nfa_path h q w r}"
  proof -
    have "nfa_path h q w r" if "p \<in> ?S'" "nfa_path h p w r" "(q, p) \<in> ?E" for p q r
      using that by (auto intro: nfa_path_eps_star)
    then show ?thesis unfolding S' by blast
  qed
  also have "\<dots> = {r. \<exists>p \<in> S. nfa_path h p (c # w) r}"
  proof -
    have "(\<exists>q \<in> ?M. nfa_path h q w r) \<longleftrightarrow> (\<exists>p \<in> S. nfa_path h p (c # w) r)" for r
    proof
      assume "\<exists>q \<in> ?M. nfa_path h q w r"
      then obtain q p where "p \<in> S" "q \<in> move h {p} c" "nfa_path h q w r"
        by (subst (asm) move_Union) blast
      then show "\<exists>p \<in> S. nfa_path h p (c # w) r"
        unfolding nfa_path_Cons by blast
    next
      assume "\<exists>p \<in> S. nfa_path h p (c # w) r"
      then obtain p p' q where "p \<in> S" "(p, p') \<in> ?E" "q \<in> move h {p'} c" "nfa_path h q w r"
        unfolding nfa_path_Cons by blast
      moreover have "p' \<in> S" using calculation(1,2) Cons.prems(2) by blast
      ultimately show "\<exists>q \<in> ?M. nfa_path h q w r"
        by (subst move_Union) blast
    qed
    then show ?thesis by simp
  qed
  finally show ?case .
qed

lemma subset_run_accepts:
  "accept n \<in> subset_run h (epsilon_closure h {start n}) w \<longleftrightarrow> nfa_accepts h n w"
proof -
  let ?E = "(eps_step h)\<^sup>*"
  have S: "epsilon_closure h {start n} = ?E `` {start n}"
    by (rule epsilon_closure_eq) simp
  have "subset_run h (?E `` {start n}) w = {r. \<exists>p \<in> ?E `` {start n}. nfa_path h p w r}"
    using finite_epsilon_closure [of "{start n}" h]
    by (intro subset_run_paths) (auto simp: S intro: rtrancl_trans)
  also have "\<dots> = {r. nfa_path h (start n) w r}"
    by (auto intro: nfa_path_eps_star)
  finally show ?thesis by (simp add: S nfa_accepts_def)
qed

lemma nfa_to_dfa_correct:
  assumes "set w \<subseteq> set alphabet"
  shows "dfa_accepts (fst (nfa_to_dfa h n alphabet d)) w \<longleftrightarrow> nfa_accepts h n w"
  using nfa_to_dfa_subset_run [OF assms] subset_run_accepts by simp

subsection \<open>Deduplication\<close>

lemma subsets_reached_materialized:
  assumes "S \<in> subsets_reached h n (set alphabet)"
  shows "S \<in> set (map nfa_states (fst (nfa_to_dfa h n alphabet d)))"
  using assms
proof (induction rule: subsets_reached.induct)
  case start
  let ?D = "fst (nfa_to_dfa h n alphabet d)"
  have "?D \<noteq> []" "nfa_states (hd ?D) = epsilon_closure h {start n}"
    using nfa_to_dfa_struct [of h n alphabet d] by (auto simp: dfa_struct_def)
  then show ?case by (metis hd_in_set image_eqI set_map)
next
  case (step S c)
  let ?D = "fst (nfa_to_dfa h n alphabet d)"
  let ?N = "epsilon_closure h (move h S c)"
  from step.IH obtain j where j: "j < length ?D" "nfa_states (?D ! j) = S"
    by (auto simp: in_set_conv_nth)
  have "if c \<in> set alphabet \<and> epsilon_closure h (move h (nfa_states (?D ! j)) c) \<noteq> {}
        then \<exists>t < length ?D. transitions (?D ! j) c = Some t \<and>
               nfa_states (?D ! t) = epsilon_closure h (move h (nfa_states (?D ! j)) c)
        else transitions (?D ! j) c = None"
    using nfa_to_dfa_complete [OF j(1)] unfolding trans_ok_def by blast
  then obtain t where "t < length ?D" "nfa_states (?D ! t) = ?N"
    using step.hyps(2,3) j(2) by auto
  then show ?case by (metis nth_mem image_eqI set_map)
qed

lemma dfa_loop_states_struct:
  "st \<in> dfa_loop_states h n alphabet d \<Longrightarrow> dfa_struct h n (set alphabet) st"
proof (induction rule: dfa_loop_states.induct)
  case initial
  show ?case by (rule dfa_struct_initial)
next
  case (iteration ds arena i unmarked d')
  then have "dfa_struct h n (set alphabet) (ds, arena, unmarked, d')" "i < length arena"
    by (auto simp: dfa_struct_def)
  then show ?case using dfa_symbols_struct [of h n "set alphabet" ds arena unmarked d' i alphabet]
    by simp
qed

text \<open>
  Claim C5. At the head of every iteration of the \<^verbatim>\<open>while\<close> loop the keys of the dict
  \<^verbatim>\<open>dfa_states\<close> are pairwise distinct and the dict maps the subset of each DFA state
  created so far to that very state; in the returned list no two DFA states have the same
  subset, and the subsets of the returned states are exactly the discoverable ones, so
  each of these is materialized as exactly one DFA state.
\<close>

theorem nfa_to_dfa_injective:
  "(\<forall>st \<in> dfa_loop_states h n alphabet d.
      distinct (map fst (fst st)) \<and>
      fst st = zip (map nfa_states (fst (snd st))) [0..<length (fst (snd st))]) \<and>
   distinct (map nfa_states (fst (nfa_to_dfa h n alphabet d))) \<and>
   set (map nfa_states (fst (nfa_to_dfa h n alphabet d))) = subsets_reached h n (set alphabet)"
proof (intro conjI ballI)
  fix st assume "st \<in> dfa_loop_states h n alphabet d"
  then have s: "dfa_struct h n (set alphabet) st" by (rule dfa_loop_states_struct)
  obtain ds arena unmarked d' where st: "st = (ds, arena, unmarked, d')" by (cases st)
  from s show "fst st = zip (map nfa_states (fst (snd st))) [0..<length (fst (snd st))]"
    unfolding st by (simp add: dfa_struct_def)
  from s show "distinct (map fst (fst st))"
    unfolding st by (simp add: dfa_struct_def)
next
  show "distinct (map nfa_states (fst (nfa_to_dfa h n alphabet d)))"
    by (rule nfa_to_dfa_distinct)
next
  show "set (map nfa_states (fst (nfa_to_dfa h n alphabet d))) = subsets_reached h n (set alphabet)"
    using nfa_to_dfa_keys_reached [of h n alphabet d] subsets_reached_materialized [of _ h n alphabet d]
    by blast
qed

theorem nfa_to_dfa_injective_witness:
  "distinct [epsilon_closure star_heap {2}] \<and>
   distinct (map nfa_states (fst (nfa_to_dfa star_heap \<lparr>start = 2, accept = 3\<rparr> ''a'' 0))) \<and>
   set (map nfa_states (fst (nfa_to_dfa star_heap \<lparr>start = 2, accept = 3\<rparr> ''a'' 0)))
     = subsets_reached star_heap \<lparr>start = 2, accept = 3\<rparr> {CHR ''a''}"
proof -
  let ?n = "\<lparr>start = 2, accept = 3\<rparr>"
  let ?st = "([(epsilon_closure star_heap {start ?n}, 0::nat)],
      [new_DFAState (epsilon_closure star_heap {start ?n})
         (accept ?n \<in> epsilon_closure star_heap {start ?n}) 0], [0::nat], (0::nat) + 1)"
  have m: "?st \<in> dfa_loop_states star_heap ?n ''a'' 0" by (rule dfa_loop_states.initial)
  note t = nfa_to_dfa_injective [of star_heap ?n "''a''" 0]
  from bspec [OF t [THEN conjunct1] m]
  have "distinct (map fst (fst ?st))" by (rule conjunct1)
  then have "distinct [epsilon_closure star_heap {2}]" by simp
  then show ?thesis using t [THEN conjunct2] by simp
qed

subsection \<open>Independence from the identifier counters\<close>

lemma shape_length: "shape h1 = shape h2 \<Longrightarrow> length h1 = length h2"
  by (metis length_map shape_def)

lemma shape_nth:
  "q < length h \<Longrightarrow> edges (h ! q) = fst (shape h ! q) \<and> epsilon (h ! q) = snd (shape h ! q)"
  by (simp add: shape_def)

lemma epsilon_of_shape: "shape h1 = shape h2 \<Longrightarrow> epsilon_of h1 = epsilon_of h2"
  using shape_length [of h1 h2] shape_nth [of _ h1] shape_nth [of _ h2]
  by (auto simp: epsilon_of_def fun_eq_iff)

lemma edges_of_shape: "shape h1 = shape h2 \<Longrightarrow> edges_of h1 = edges_of h2"
  using shape_length [of h1 h2] shape_nth [of _ h1] shape_nth [of _ h2]
  by (auto simp: edges_of_def fun_eq_iff)

lemma nfa_path_same_edges:
  assumes "epsilon_of h1 = epsilon_of h2" "edges_of h1 = edges_of h2"
  shows "nfa_path h1 p w q \<Longrightarrow> nfa_path h2 p w q"
proof (induction rule: nfa_path.induct)
  case (path_refl p)
  show ?case by (rule nfa_path.path_refl)
next
  case (path_eps q p w r)
  then show ?case using assms(1) by (auto intro: nfa_path.path_eps)
next
  case (path_sym p c ts q w r)
  then show ?case using assms(2) by (auto intro: nfa_path.path_sym)
qed

lemma nfa_accepts_shape:
  assumes "shape h1 = shape h2"
  shows "nfa_accepts h1 n w = nfa_accepts h2 n w"
  unfolding nfa_accepts_def
  using nfa_path_same_edges [of h1 h2] nfa_path_same_edges [of h2 h1]
    epsilon_of_shape [OF assms] edges_of_shape [OF assms]
  by auto

lemma shape_append: "shape (h @ [s]) = shape h @ [(edges s, epsilon s)]"
  by (simp add: shape_def)

lemma shape_update:
  "shape (h[q := s]) = (shape h)[q := (edges s, epsilon s)]"
  by (simp add: shape_def map_update)

lemma shape_extend_epsilon:
  assumes "shape h1 = shape h2"
  shows "shape (extend_epsilon h1 q ts) = shape (extend_epsilon h2 q ts)"
proof (cases "q < length h1")
  case True
  then have "q < length h2" using shape_length [OF assms] by simp
  then show ?thesis
    using True assms shape_nth [of q h1] shape_nth [of q h2]
    by (simp add: extend_epsilon_def shape_update)
next
  case False
  then have "\<not> q < length h2" using shape_length [OF assms] by simp
  then show ?thesis using False assms by (simp add: extend_epsilon_def list_update_beyond not_less)
qed

lemma shape_set_edge:
  assumes "shape h1 = shape h2"
  shows "shape (set_edge h1 q c ts) = shape (set_edge h2 q c ts)"
proof (cases "q < length h1")
  case True
  then have "q < length h2" using shape_length [OF assms] by simp
  then show ?thesis
    using True assms shape_nth [of q h1] shape_nth [of q h2]
    by (simp add: set_edge_def shape_update)
next
  case False
  then have "\<not> q < length h2" using shape_length [OF assms] by simp
  then show ?thesis using False assms by (simp add: set_edge_def list_update_beyond not_less)
qed

lemma bn_step_shape:
  assumes "shape h1 = shape h2"
  shows "same_run (bn_step (fs, h1, k1) c) (bn_step (fs, h2, k2) c)"
proof -
  note l = shape_length [OF assms]
  have lit: "shape (set_edge (h1 @ [x1, y1]) a c ts) = shape (set_edge (h2 @ [x2, y2]) a c ts)"
    if "edges x1 = edges x2" "epsilon x1 = epsilon x2" "edges y1 = edges y2" "epsilon y1 = epsilon y2"
    for x1 x2 y1 y2 :: state and a ts
    by (rule shape_set_edge) (use that assms in \<open>simp add: shape_def\<close>)
  have two: "shape (h1 @ [x1, y1]) = shape (h2 @ [x2, y2])"
    if "edges x1 = edges x2" "epsilon x1 = epsilon x2" "edges y1 = edges y2" "epsilon y1 = epsilon y2"
    for x1 x2 y1 y2 :: state
    using that assms by (simp add: shape_def)
  show ?thesis
  proof (cases fs)
    case Nil
    then show ?thesis
      using l by (auto simp: same_run_def new_State_def assms intro!: lit)
  next
    case (Cons f1 fs1)
    show ?thesis
    proof (cases fs1)
      case Nil
      then show ?thesis
        using l Cons
        by (auto simp: same_run_def new_State_def assms intro!: lit shape_extend_epsilon two)
    next
      case (Cons f2 fs2)
      then show ?thesis
        using l \<open>fs = f1 # fs1\<close>
        by (auto simp: same_run_def new_State_def assms intro!: lit shape_extend_epsilon two)
    qed
  qed
qed

lemma bn_loop_shape:
  assumes "shape h1 = shape h2"
  shows "same_run (bn_loop (fs, h1, k1) p) (bn_loop (fs, h2, k2) p)"
  using assms
proof (induction p arbitrary: fs h1 h2 k1 k2)
  case Nil
  then show ?case by (simp add: same_run_def)
next
  case (Cons c p)
  show ?case
  proof (cases "bn_step (fs, h1, k1) c")
    case (Inl e)
    then have "bn_step (fs, h2, k2) c = Inl e"
      using bn_step_shape [OF Cons.prems, where fs=fs and ?k1.0=k1 and c=c and ?k2.0=k2] by (simp add: same_run_def)
    then show ?thesis using Inl by (simp add: same_run_def del: bn_step.simps)
  next
    case (Inr st)
    obtain fs' h1' k1' where st: "st = (fs', h1', k1')" by (cases st)
    then obtain h2' k2' where 2: "bn_step (fs, h2, k2) c = Inr (fs', h2', k2')" "shape h1' = shape h2'"
      using bn_step_shape [OF Cons.prems, where fs=fs and ?k1.0=k1 and c=c and ?k2.0=k2] Inr by (auto simp: same_run_def)
    show ?thesis using Inr st 2 Cons.IH [OF 2(2), where fs=fs' and ?k1.0=k1' and ?k2.0=k2']
      by (simp del: bn_step.simps)
  qed
qed

lemma build_nfa_shape:
  "(case build_nfa p k1 of
      Inl e \<Rightarrow> build_nfa p k2 = Inl e
    | Inr (n, h, k) \<Rightarrow> (\<exists>h' k'. build_nfa p k2 = Inr (n, h', k') \<and> shape h = shape h'))"
  using bn_loop_shape [where ?h1.0="[]" and ?h2.0="[]" and fs="[]" and ?k1.0=k1 and ?k2.0=k2 and p=p]
  by (auto simp: build_nfa_def same_run_def split: sum.splits list.splits)

lemma regex_to_nfa_shape:
  "(case regex_to_nfa regex k1 of
      Inl e \<Rightarrow> regex_to_nfa regex k2 = Inl e
    | Inr (n, h, k) \<Rightarrow> (\<exists>h' k'. regex_to_nfa regex k2 = Inr (n, h', k') \<and> shape h = shape h'))"
proof (cases "to_postfix regex")
  case (Inl e)
  then show ?thesis by (simp add: regex_to_nfa_def)
next
  case (Inr p)
  then have e: "regex_to_nfa regex k = build_nfa p k" for k
    by (simp add: regex_to_nfa_def)
  show ?thesis unfolding e by (rule build_nfa_shape)
qed

lemma compile_independent:
  assumes "set alphabet1 = extract_alphabet regex" "set alphabet2 = extract_alphabet regex"
    "set w \<subseteq> extract_alphabet regex"
  shows "isl (compile regex alphabet1 k1 d1) = isl (compile regex alphabet2 k2 d2) \<and>
         recognizes (compile regex alphabet1 k1 d1) w = recognizes (compile regex alphabet2 k2 d2) w"
proof (cases "regex_to_nfa regex k1")
  case (Inl e)
  then have "regex_to_nfa regex k2 = Inl e"
    using regex_to_nfa_shape [where regex=regex and ?k1.0=k1 and ?k2.0=k2] by simp
  then show ?thesis using Inl by (simp add: compile_def recognizes_def)
next
  case (Inr r)
  obtain n h k where r: "r = (n, h, k)" by (cases r)
  then obtain h' k' where 2: "regex_to_nfa regex k2 = Inr (n, h', k')" "shape h = shape h'"
    using regex_to_nfa_shape [where regex=regex and ?k1.0=k1 and ?k2.0=k2] Inr by auto
  have "dfa_accepts (fst (nfa_to_dfa h n alphabet1 d1)) w = nfa_accepts h n w"
    using assms by (intro nfa_to_dfa_correct) simp
  moreover have "dfa_accepts (fst (nfa_to_dfa h' n alphabet2 d2)) w = nfa_accepts h' n w"
    using assms by (intro nfa_to_dfa_correct) simp
  ultimately show ?thesis
    using Inr r 2 nfa_accepts_shape [OF 2(2), of n w]
    by (simp add: compile_def recognizes_def)
qed

text \<open>
  Claim C9. Two runs of the whole construction on the same regex, from any two values of
  the class counters of \<^verbatim>\<open>State\<close> and \<^verbatim>\<open>DFAState\<close> and with any two iteration orders of
  the alphabet set, either both fail or both succeed, and then the two DFAs accept the
  same strings over the regex's alphabet.
\<close>

theorem compile_deterministic:
  assumes "set alphabet1 = extract_alphabet regex" "set alphabet2 = extract_alphabet regex"
    "set w \<subseteq> extract_alphabet regex"
  shows "isl (compile regex alphabet1 k1 d1) = isl (compile regex alphabet2 k2 d2) \<and>
         recognizes (compile regex alphabet1 k1 d1) w = recognizes (compile regex alphabet2 k2 d2) w"
  using assms by (rule compile_independent)

lemma extract_alphabet_example: "extract_alphabet ''a|b'' = {CHR ''a'', CHR ''b''}"
  by (auto simp: extract_alphabet_def isalnum_def)

text \<open>A regex with a literal beyond ASCII.\<close>

lemma latin1_alphabet:
  "extract_alphabet [CHR 0xE9, CHR ''|'', CHR ''a''] = {CHR 0xE9, CHR ''a''}"
  by (auto simp: extract_alphabet_def isalnum_def)

lemma latin1_compile:
  "map (recognizes (compile [CHR 0xE9, CHR ''|'', CHR ''a''] [CHR 0xE9, CHR ''a''] 0 0))
     [[CHR 0xE9], ''a'', [CHR 0xE9, CHR 0xE9], '''']
   = [True, True, False, False]"
  by code_simp

theorem compile_deterministic_witness:
  "set ''ab'' = extract_alphabet ''a|b'' \<and> set ''ba'' = extract_alphabet ''a|b'' \<and>
   set ''b'' \<subseteq> extract_alphabet ''a|b'' \<and>
   isl (compile ''a|b'' ''ab'' 0 0) = isl (compile ''a|b'' ''ba'' 6 3) \<and>
   recognizes (compile ''a|b'' ''ab'' 0 0) ''b'' = recognizes (compile ''a|b'' ''ba'' 6 3) ''b'' \<and>
   set [CHR 0xE9, CHR ''a''] = extract_alphabet [CHR 0xE9, CHR ''|'', CHR ''a''] \<and>
   set [CHR ''a'', CHR 0xE9] = extract_alphabet [CHR 0xE9, CHR ''|'', CHR ''a''] \<and>
   set [CHR 0xE9] \<subseteq> extract_alphabet [CHR 0xE9, CHR ''|'', CHR ''a''] \<and>
   recognizes (compile [CHR 0xE9, CHR ''|'', CHR ''a''] [CHR 0xE9, CHR ''a''] 0 0) [CHR 0xE9] \<and>
   recognizes (compile [CHR 0xE9, CHR ''|'', CHR ''a''] [CHR ''a'', CHR 0xE9] 6 3) [CHR 0xE9]"
proof -
  have 1: "set ''ab'' = extract_alphabet ''a|b''" and 2: "set ''ba'' = extract_alphabet ''a|b''"
    and 3: "set ''b'' \<subseteq> extract_alphabet ''a|b''"
    by (auto simp: extract_alphabet_example)
  have 4: "set [CHR 0xE9, CHR ''a''] = extract_alphabet [CHR 0xE9, CHR ''|'', CHR ''a'']"
    and 5: "set [CHR ''a'', CHR 0xE9] = extract_alphabet [CHR 0xE9, CHR ''|'', CHR ''a'']"
    and 6: "set [CHR 0xE9] \<subseteq> extract_alphabet [CHR 0xE9, CHR ''|'', CHR ''a'']"
    by (auto simp: latin1_alphabet)
  have 7: "recognizes (compile [CHR 0xE9, CHR ''|'', CHR ''a''] [CHR 0xE9, CHR ''a''] 0 0) [CHR 0xE9]"
    using latin1_compile by simp
  from compile_deterministic [OF 4 5 6, where ?k1.0=0 and ?d1.0=0 and ?k2.0=6 and ?d2.0=3] 7
  have 8: "recognizes (compile [CHR 0xE9, CHR ''|'', CHR ''a''] [CHR ''a'', CHR 0xE9] 6 3) [CHR 0xE9]"
    by simp
  from compile_deterministic [OF 1 2 3, where ?k1.0=0 and ?d1.0=0 and ?k2.0=6 and ?d2.0=3]
    1 2 3 4 5 6 7 8
  show ?thesis by blast
qed

subsection \<open>The example of the module\<close>

lemma abb_alphabet: "extract_alphabet ''(a|b)*abb'' = {CHR ''a'', CHR ''b''}"
  by (auto simp: extract_alphabet_def isalnum_def)

lemma abb_reference:
  "map (recognizes (compile ''(a|b)*abb'' ''ab'' 0 0))
     [''abb'', ''aabb'', ''babb'', ''ababb'', ''ab'', ''aab'', '''']
   = [True, True, True, True, False, False, False]"
  by code_simp

text \<open>
  Claim C7. For \<^verbatim>\<open>(a|b)*abb\<close>, from any counters and with the alphabet iterated in any
  order, the DFA accepts \<^verbatim>\<open>abb\<close>, \<^verbatim>\<open>aabb\<close>, \<^verbatim>\<open>babb\<close> and \<^verbatim>\<open>ababb\<close> and rejects \<^verbatim>\<open>ab\<close>, \<^verbatim>\<open>aab\<close>
  and the empty string.
\<close>

theorem abb_examples:
  assumes "set alphabet = extract_alphabet ''(a|b)*abb''"
  shows "map (recognizes (compile ''(a|b)*abb'' alphabet k d))
           [''abb'', ''aabb'', ''babb'', ''ababb'', ''ab'', ''aab'', '''']
         = [True, True, True, True, False, False, False]"
proof -
  have ab: "set ''ab'' = extract_alphabet ''(a|b)*abb''" by (simp add: abb_alphabet)
  have "recognizes (compile ''(a|b)*abb'' alphabet k d) w
        = recognizes (compile ''(a|b)*abb'' ''ab'' 0 0) w"
    if "set w \<subseteq> extract_alphabet ''(a|b)*abb''" for w
    using compile_independent [OF assms ab that] by simp
  then have "map (recognizes (compile ''(a|b)*abb'' alphabet k d))
           [''abb'', ''aabb'', ''babb'', ''ababb'', ''ab'', ''aab'', '''']
     = map (recognizes (compile ''(a|b)*abb'' ''ab'' 0 0))
           [''abb'', ''aabb'', ''babb'', ''ababb'', ''ab'', ''aab'', '''']"
    by (simp add: abb_alphabet)
  then show ?thesis by (simp only: abb_reference)
qed

theorem abb_examples_witness:
  "set ''ba'' = extract_alphabet ''(a|b)*abb'' \<and>
   map (recognizes (compile ''(a|b)*abb'' ''ba'' 14 5))
     [''abb'', ''aabb'', ''babb'', ''ababb'', ''ab'', ''aab'', '''']
   = [True, True, True, True, False, False, False]"
proof -
  have 1: "set ''ba'' = extract_alphabet ''(a|b)*abb''" by (auto simp: abb_alphabet)
  from abb_examples [OF 1, of 14 5] 1 show ?thesis by blast
qed

section \<open>Thompson's construction\<close>

subsection \<open>Paths in a region of the arena\<close>

lemma nfa_path_trans:
  "nfa_path h p u q \<Longrightarrow> nfa_path h q v r \<Longrightarrow> nfa_path h p (u @ v) r"
  by (induction rule: nfa_path.induct) (auto intro: nfa_path.intros)

lemma nfa_path_sink:
  assumes "nfa_path h p w r" "epsilon_of h p = []" "edges_of h p = Map.empty"
  shows "w = [] \<and> r = p"
  using assms by (cases rule: nfa_path.cases) auto

lemma nfa_path_stays:
  assumes "closed h Q"
  shows "nfa_path h p w r \<Longrightarrow> p \<in> Q \<Longrightarrow> r \<in> Q"
proof (induction rule: nfa_path.induct)
  case (path_refl p)
  then show ?case by simp
next
  case (path_eps q p w r)
  then show ?case using assms unfolding closed_def by blast
next
  case (path_sym p c ts q w r)
  then show ?case using assms unfolding closed_def by blast
qed

lemma nfa_path_same_on:
  assumes "closed h Q" "same_on h h' Q"
  shows "nfa_path h p w r \<Longrightarrow> p \<in> Q \<Longrightarrow> nfa_path h' p w r"
proof (induction rule: nfa_path.induct)
  case (path_refl p)
  show ?case by (rule nfa_path.path_refl)
next
  case (path_eps q p w r)
  have "q \<in> Q" using path_eps assms(1) unfolding closed_def by blast
  moreover have "q \<in> set (epsilon_of h' p)" using path_eps assms(2) unfolding same_on_def by simp
  ultimately show ?case using path_eps.IH by (auto intro: nfa_path.path_eps)
next
  case (path_sym p c ts q w r)
  have "q \<in> Q" using path_sym assms(1) unfolding closed_def by blast
  moreover have "edges_of h' p c = Some ts" using path_sym assms(2) unfolding same_on_def by simp
  ultimately show ?case using path_sym by (auto intro: nfa_path.path_sym)
qed

lemma closed_same_on: "closed h Q \<Longrightarrow> same_on h h' Q \<Longrightarrow> closed h' Q"
  unfolding closed_def same_on_def by simp

lemma same_on_sym: "same_on h h' Q \<Longrightarrow> same_on h' h Q"
  unfolding same_on_def by simp

lemma same_on_trans: "same_on h h' Q \<Longrightarrow> same_on h' h'' Q \<Longrightarrow> same_on h h'' Q"
  unfolding same_on_def by simp

lemma same_on_mono: "same_on h h' Q \<Longrightarrow> P \<subseteq> Q \<Longrightarrow> same_on h h' P"
  unfolding same_on_def by blast

lemma nfa_path_same_on_iff:
  assumes "closed h Q" "same_on h h' Q" "p \<in> Q"
  shows "nfa_path h' p w r \<longleftrightarrow> nfa_path h p w r"
  using nfa_path_same_on [OF assms(1,2) _ assms(3)]
    nfa_path_same_on [OF closed_same_on [OF assms(1,2)] same_on_sym [OF assms(2)] _ assms(3)]
  by blast

lemma frag_ok_frame:
  assumes "frag_ok h lo hi f L" "same_on h h' {lo..<hi}" "length h \<le> length h'"
  shows "frag_ok h' lo hi f L"
proof -
  from assms(1) have s: "start f \<in> {lo..<hi}" and a: "accept f \<in> {lo..<hi}"
    and c: "closed h {lo..<hi}" by (simp_all add: frag_ok_def)
  have "nfa_path h' (start f) w (accept f) \<longleftrightarrow> nfa_path h (start f) w (accept f)" for w
    by (rule nfa_path_same_on_iff [OF c assms(2) s])
  moreover have "epsilon_of h' (accept f) = epsilon_of h (accept f)"
    "edges_of h' (accept f) = edges_of h (accept f)"
    using assms(2) a unfolding same_on_def by simp_all
  ultimately show ?thesis
    using assms closed_same_on [OF c assms(2)] unfolding frag_ok_def by simp
qed

subsection \<open>Composing fragments\<close>

lemma nfa_path_grows:
  assumes "closed h Q" "grows_on h h' Q"
  shows "nfa_path h p w r \<Longrightarrow> p \<in> Q \<Longrightarrow> nfa_path h' p w r"
proof (induction rule: nfa_path.induct)
  case (path_refl p)
  show ?case by (rule nfa_path.path_refl)
next
  case (path_eps q p w r)
  have "q \<in> Q" using path_eps assms(1) unfolding closed_def by blast
  moreover have "q \<in> set (epsilon_of h' p)" using path_eps assms(2) unfolding grows_on_def by blast
  ultimately show ?case using path_eps.IH by (auto intro: nfa_path.path_eps)
next
  case (path_sym p c ts q w r)
  have "q \<in> Q" using path_sym assms(1) unfolding closed_def by blast
  moreover have "edges_of h' p c = Some ts" using path_sym assms(2) unfolding grows_on_def by simp
  ultimately show ?case using path_sym by (auto intro: nfa_path.path_sym)
qed

lemma closedD_eps: "closed h Q \<Longrightarrow> q \<in> Q \<Longrightarrow> set (epsilon_of h q) \<subseteq> Q"
  unfolding closed_def by blast

lemma closedD_edges:
  "closed h Q \<Longrightarrow> q \<in> Q \<Longrightarrow> edges_of h q c = Some ts \<Longrightarrow> set ts \<subseteq> Q"
  unfolding closed_def by blast

lemma frag_lit:
  assumes "lo + 2 \<le> length h"
    "epsilon_of h lo = []" "edges_of h lo = [c \<mapsto> [lo + 1]]"
    "epsilon_of h (lo + 1) = []" "edges_of h (lo + 1) = Map.empty"
  shows "frag_ok h lo (lo + 2) \<lparr>start = lo, accept = lo + 1\<rparr> {[c]}"
proof -
  have cl: "closed h {lo..<lo + 2}"
    unfolding closed_def
  proof (intro ballI conjI allI impI)
    fix q assume "q \<in> {lo..<lo + 2}"
    then have q: "q = lo \<or> q = lo + 1" by auto
    show "set (epsilon_of h q) \<subseteq> {lo..<lo + 2}" using q assms by auto
    fix c' ts assume "edges_of h q c' = Some ts"
    then show "set ts \<subseteq> {lo..<lo + 2}" using q assms by (auto split: if_splits)
  qed
  have "nfa_path h lo w (lo + 1) \<longleftrightarrow> w = [c]" for w
  proof
    assume "nfa_path h lo w (lo + 1)"
    then show "w = [c]"
    proof (cases rule: nfa_path.cases)
      case path_refl
      then show ?thesis by simp
    next
      case (path_eps q)
      then show ?thesis using assms(2) by simp
    next
      case (path_sym c' ts q w')
      then have "c' = c" "q = lo + 1" using assms(3) by (auto split: if_splits)
      then have "w' = []" using path_sym(4) nfa_path_sink [OF _ assms(4,5)] by blast
      then show ?thesis using path_sym(1) \<open>c' = c\<close> by simp
    qed
  next
    assume "w = [c]"
    moreover have "nfa_path h lo [c] (lo + 1)"
      by (rule nfa_path.path_sym [where ts = "[lo + 1]" and q = "lo + 1"])
         (simp_all add: assms nfa_path.path_refl del: One_nat_def add_Suc_right)
    ultimately show "nfa_path h lo w (lo + 1)" by simp
  qed
  then show ?thesis using assms cl by (simp add: frag_ok_def)
qed

lemma frag_cat:
  assumes f1: "frag_ok h lo mid f1 L1" and f2: "frag_ok h mid hi f2 L2"
    and e1: "epsilon_of h' (accept f1) = [start f2]"
    and e2: "\<forall>q. q \<noteq> accept f1 \<longrightarrow> epsilon_of h' q = epsilon_of h q"
    and e3: "edges_of h' = edges_of h"
    and len: "length h' = length h"
  shows "frag_ok h' lo hi \<lparr>start = start f1, accept = accept f2\<rparr>
           {u @ v | u v. u \<in> L1 \<and> v \<in> L2}"
proof -
  let ?Q1 = "{lo..<mid}" and ?Q2 = "{mid..<hi}" and ?Q = "{lo..<hi}"
  let ?s1 = "start f1" and ?a1 = "accept f1" and ?s2 = "start f2" and ?a2 = "accept f2"
  from f1 have s1: "?s1 \<in> ?Q1" and a1: "?a1 \<in> ?Q1" and c1: "closed h ?Q1"
    and k1: "epsilon_of h ?a1 = []" "edges_of h ?a1 = Map.empty"
    and l1: "\<And>w. nfa_path h ?s1 w ?a1 \<longleftrightarrow> w \<in> L1"
    by (simp_all add: frag_ok_def)
  from f2 have s2: "?s2 \<in> ?Q2" and a2: "?a2 \<in> ?Q2" and c2: "closed h ?Q2" and hi: "hi \<le> length h"
    and k2: "epsilon_of h ?a2 = []" "edges_of h ?a2 = Map.empty"
    and l2: "\<And>w. nfa_path h ?s2 w ?a2 \<longleftrightarrow> w \<in> L2"
    by (simp_all add: frag_ok_def)
  have ne: "?a1 \<noteq> ?a2" using a1 a2 by auto
  have same2: "same_on h h' ?Q2" unfolding same_on_def using e2 e3 a1 by auto
  have grow1: "grows_on h h' ?Q1" unfolding grows_on_def using e1 e2 e3 k1 by (metis empty_iff empty_set subsetI subset_refl)
  have c2': "closed h' ?Q2" by (rule closed_same_on [OF c2 same2])
  have cl: "closed h' ?Q"
    unfolding closed_def
  proof (intro ballI conjI allI impI)
    fix q assume q: "q \<in> ?Q"
    show "set (epsilon_of h' q) \<subseteq> ?Q"
    proof (cases "q = ?a1")
      case True
      then show ?thesis using e1 s2 a1 by auto
    next
      case False
      then have "epsilon_of h' q = epsilon_of h q" using e2 by simp
      moreover have "set (epsilon_of h q) \<subseteq> ?Q"
      proof (cases "q < mid")
        case True
        then have "q \<in> ?Q1" using q by simp
        then have "set (epsilon_of h q) \<subseteq> ?Q1" by (rule closedD_eps [OF c1])
        then show ?thesis using s2 by auto
      next
        case False
        then have "q \<in> ?Q2" using q by simp
        then have "set (epsilon_of h q) \<subseteq> ?Q2" by (rule closedD_eps [OF c2])
        then show ?thesis using s1 by auto
      qed
      ultimately show ?thesis by simp
    qed
    fix c ts assume "edges_of h' q c = Some ts"
    then have e: "edges_of h q c = Some ts" using e3 by simp
    show "set ts \<subseteq> ?Q"
    proof (cases "q < mid")
      case True
      then have "q \<in> ?Q1" using q by simp
      then have "set ts \<subseteq> ?Q1" using e by (rule closedD_edges [OF c1])
      then show ?thesis using s2 by auto
    next
      case False
      then have "q \<in> ?Q2" using q by simp
      then have "set ts \<subseteq> ?Q2" using e by (rule closedD_edges [OF c2])
      then show ?thesis using s1 by auto
    qed
  qed
  have split: "nfa_path h' p w r \<Longrightarrow> p \<in> ?Q1 \<Longrightarrow> r = ?a2 \<Longrightarrow>
      \<exists>u v. w = u @ v \<and> nfa_path h p u ?a1 \<and> nfa_path h ?s2 v ?a2" for p w r
  proof (induction rule: nfa_path.induct)
    case (path_refl p)
    then show ?case using a2 by auto
  next
    case (path_eps q p w r)
    show ?case
    proof (cases "p = ?a1")
      case True
      then have "q = ?s2" using path_eps(1) e1 by simp
      then have "nfa_path h ?s2 w ?a2"
        using path_eps(2,5) nfa_path_same_on_iff [OF c2 same2 s2] by simp
      then show ?thesis using True nfa_path.path_refl [of h ?a1] by (metis append_Nil)
    next
      case False
      then have q: "q \<in> set (epsilon_of h p)" using path_eps(1) e2 by simp
      then have "q \<in> ?Q1" using path_eps(4) c1 unfolding closed_def by blast
      from path_eps.IH [OF this path_eps(5)] obtain u v where
        "w = u @ v" "nfa_path h q u ?a1" "nfa_path h ?s2 v ?a2" by blast
      then show ?thesis using q by (auto intro: nfa_path.path_eps)
    qed
  next
    case (path_sym p c ts q w r)
    have e: "edges_of h p c = Some ts" using path_sym(1) e3 by simp
    then have "q \<in> ?Q1" using path_sym(2,5) c1 unfolding closed_def by blast
    from path_sym.IH [OF this path_sym(6)] obtain u v where
      "w = u @ v" "nfa_path h q u ?a1" "nfa_path h ?s2 v ?a2" by blast
    then have "c # w = (c # u) @ v \<and> nfa_path h p (c # u) ?a1 \<and> nfa_path h ?s2 v ?a2"
      using e path_sym(2) by (auto intro: nfa_path.path_sym)
    then show ?case by blast
  qed
  have lang: "nfa_path h' ?s1 w ?a2 \<longleftrightarrow> w \<in> {u @ v | u v. u \<in> L1 \<and> v \<in> L2}" for w
  proof
    assume "nfa_path h' ?s1 w ?a2"
    from split [OF this s1 refl] show "w \<in> {u @ v | u v. u \<in> L1 \<and> v \<in> L2}"
      using l1 l2 by auto
  next
    assume "w \<in> {u @ v | u v. u \<in> L1 \<and> v \<in> L2}"
    then obtain u v where w: "w = u @ v" "u \<in> L1" "v \<in> L2" by auto
    have "nfa_path h' ?s1 u ?a1"
      using nfa_path_grows [OF c1 grow1 _ s1] w(2) l1 by simp
    moreover have "nfa_path h' ?s2 v ?a2"
      using nfa_path_same_on_iff [OF c2 same2 s2] w(3) l2 by simp
    then have "nfa_path h' ?a1 v ?a2"
      using e1 by (auto intro: nfa_path.path_eps)
    ultimately show "nfa_path h' ?s1 w ?a2" unfolding w(1) by (rule nfa_path_trans)
  qed
  have "epsilon_of h' ?a2 = []" "edges_of h' ?a2 = Map.empty"
    using e2 e3 k2 ne by auto
  then show ?thesis
    using s1 a2 hi len cl lang unfolding frag_ok_def by auto
qed

text \<open>
  Paths that leave a region through the one epsilon edge added at its accept state: to a
  fresh sink x (union, and the exit of a star), or back to the start as well (star).
\<close>

lemma exit_path:
  assumes c: "closed h Q" and a: "a \<in> Q" and x: "x \<notin> Q"
    and ea: "epsilon_of h' a = [x]"
    and kx: "epsilon_of h' x = []" "edges_of h' x = Map.empty"
    and eo: "\<forall>q \<in> Q. q \<noteq> a \<longrightarrow> epsilon_of h' q = epsilon_of h q"
    and ed: "\<forall>q \<in> Q. edges_of h' q = edges_of h q"
  shows "nfa_path h' p w r \<Longrightarrow> p \<in> Q \<Longrightarrow> r = x \<Longrightarrow> nfa_path h p w a"
proof (induction rule: nfa_path.induct)
  case (path_refl p)
  then show ?case using x by simp
next
  case (path_eps q p w r)
  show ?case
  proof (cases "p = a")
    case True
    then have "q = x" using path_eps(1) ea by simp
    then have "w = []" using path_eps(2) nfa_path_sink [OF _ kx] by blast
    then show ?thesis using True by (simp add: nfa_path.path_refl)
  next
    case False
    then have q: "q \<in> set (epsilon_of h p)" using path_eps(1,4) eo by simp
    then have "q \<in> Q" using closedD_eps [OF c path_eps(4)] by blast
    from path_eps.IH [OF this path_eps(5)] have "nfa_path h q w a" .
    with q show ?thesis by (rule nfa_path.path_eps)
  qed
next
  case (path_sym p c' ts q w r)
  have e: "edges_of h p c' = Some ts" using path_sym(1,5) ed by simp
  then have "q \<in> Q" using closedD_edges [OF c path_sym(5) e] path_sym(2) by blast
  from path_sym.IH [OF this path_sym(6)] show ?case
    using e path_sym(2) by (auto intro: nfa_path.path_sym)
qed

lemma loop_path:
  assumes c: "closed h Q" and s: "s \<in> Q" and a: "a \<in> Q" and x: "x \<notin> Q"
    and ea: "epsilon_of h' a = [s, x]"
    and kx: "epsilon_of h' x = []" "edges_of h' x = Map.empty"
    and eo: "\<forall>q \<in> Q. q \<noteq> a \<longrightarrow> epsilon_of h' q = epsilon_of h q"
    and ed: "\<forall>q \<in> Q. edges_of h' q = edges_of h q"
    and l: "\<And>w. nfa_path h s w a \<longleftrightarrow> w \<in> L"
  shows "nfa_path h' p w r \<Longrightarrow> p \<in> Q \<Longrightarrow> r = x \<Longrightarrow>
         \<exists>u v. w = u @ v \<and> nfa_path h p u a \<and> v \<in> star L"
proof (induction rule: nfa_path.induct)
  case (path_refl p)
  then show ?case using x by simp
next
  case (path_eps q p w r)
  show ?case
  proof (cases "p = a")
    case True
    then have "q = s \<or> q = x" using path_eps(1) ea by simp
    then show ?thesis
    proof
      assume "q = s"
      from path_eps.IH [unfolded this, OF s path_eps(5)] obtain u v where
        "w = u @ v" "nfa_path h s u a" "v \<in> star L" by blast
      then have "w \<in> star L" using l by (auto intro: star.star_app)
      then have "w = [] @ w \<and> nfa_path h p [] a \<and> w \<in> star L"
        using True by (simp add: nfa_path.path_refl)
      then show ?thesis by blast
    next
      assume "q = x"
      then have "w = []" using path_eps(2) nfa_path_sink [OF _ kx] by blast
      then have "w = [] @ [] \<and> nfa_path h p [] a \<and> [] \<in> star L"
        using True by (simp add: nfa_path.path_refl star.star_nil)
      then show ?thesis by blast
    qed
  next
    case False
    then have q: "q \<in> set (epsilon_of h p)" using path_eps(1,4) eo by simp
    then have "q \<in> Q" using closedD_eps [OF c path_eps(4)] by blast
    from path_eps.IH [OF this path_eps(5)] obtain u v where
      "w = u @ v" "nfa_path h q u a" "v \<in> star L" by blast
    then show ?thesis using q by (auto intro: nfa_path.path_eps)
  qed
next
  case (path_sym p c' ts q w r)
  have e: "edges_of h p c' = Some ts" using path_sym(1,5) ed by simp
  then have "q \<in> Q" using closedD_edges [OF c path_sym(5) e] path_sym(2) by blast
  from path_sym.IH [OF this path_sym(6)] obtain u v where
    "w = u @ v" "nfa_path h q u a" "v \<in> star L" by blast
  then have "c' # w = (c' # u) @ v \<and> nfa_path h p (c' # u) a \<and> v \<in> star L"
    using e path_sym(2) by (auto intro: nfa_path.path_sym)
  then show ?case by blast
qed

lemma frag_alt:
  assumes f1: "frag_ok h lo mid f1 L1" and f2: "frag_ok h mid hi f2 L2"
    and len: "hi + 2 \<le> length h'"
    and es: "epsilon_of h' hi = [start f1, start f2]" "edges_of h' hi = Map.empty"
    and kx: "epsilon_of h' (hi + 1) = []" "edges_of h' (hi + 1) = Map.empty"
    and e1: "epsilon_of h' (accept f1) = [hi + 1]"
    and e2: "epsilon_of h' (accept f2) = [hi + 1]"
    and eo: "\<forall>q < hi. q \<noteq> accept f1 \<longrightarrow> q \<noteq> accept f2 \<longrightarrow> epsilon_of h' q = epsilon_of h q"
    and ed: "\<forall>q < hi. edges_of h' q = edges_of h q"
  shows "frag_ok h' lo (hi + 2) \<lparr>start = hi, accept = hi + 1\<rparr> (L1 \<union> L2)"
proof -
  let ?Q1 = "{lo..<mid}" and ?Q2 = "{mid..<hi}" and ?Q = "{lo..<hi + 2}"
  let ?s1 = "start f1" and ?a1 = "accept f1" and ?s2 = "start f2" and ?a2 = "accept f2"
  let ?x = "hi + 1"
  from f1 have s1: "?s1 \<in> ?Q1" and a1: "?a1 \<in> ?Q1" and c1: "closed h ?Q1"
    and k1: "epsilon_of h ?a1 = []" "edges_of h ?a1 = Map.empty"
    and l1: "\<And>w. nfa_path h ?s1 w ?a1 \<longleftrightarrow> w \<in> L1"
    by (simp_all add: frag_ok_def)
  from f2 have s2: "?s2 \<in> ?Q2" and a2: "?a2 \<in> ?Q2" and c2: "closed h ?Q2"
    and k2: "epsilon_of h ?a2 = []" "edges_of h ?a2 = Map.empty"
    and l2: "\<And>w. nfa_path h ?s2 w ?a2 \<longleftrightarrow> w \<in> L2"
    by (simp_all add: frag_ok_def)
  have x1: "?x \<notin> ?Q1" and x2: "?x \<notin> ?Q2" using s2 by auto
  have eo1: "\<forall>q \<in> ?Q1. q \<noteq> ?a1 \<longrightarrow> epsilon_of h' q = epsilon_of h q"
    using eo a2 s2 by auto
  have eo2: "\<forall>q \<in> ?Q2. q \<noteq> ?a2 \<longrightarrow> epsilon_of h' q = epsilon_of h q"
    using eo a1 by auto
  have ed1: "\<forall>q \<in> ?Q1. edges_of h' q = edges_of h q" using ed s2 by auto
  have ed2: "\<forall>q \<in> ?Q2. edges_of h' q = edges_of h q" using ed by auto
  have g1: "grows_on h h' ?Q1"
    unfolding grows_on_def using eo1 ed1 k1 by (metis empty_iff empty_set subsetI subset_refl)
  have g2: "grows_on h h' ?Q2"
    unfolding grows_on_def using eo2 ed2 k2 by (metis empty_iff empty_set subsetI subset_refl)
  have cl: "closed h' ?Q"
    unfolding closed_def
  proof (intro ballI conjI allI impI)
    fix q assume q: "q \<in> ?Q"
    consider "q = hi" | "q = ?x" | "q = ?a1" | "q = ?a2"
      | "q \<in> ?Q1" "q \<noteq> ?a1" | "q \<in> ?Q2" "q \<noteq> ?a2"
      using q by force
    then show "set (epsilon_of h' q) \<subseteq> ?Q"
    proof cases
      case 1 then show ?thesis using es s1 s2 by auto
    next
      case 2 then show ?thesis using kx by simp
    next
      case 3 then show ?thesis using e1 s1 s2 by auto
    next
      case 4 then show ?thesis using e2 s1 s2 by auto
    next
      case 5
      then have "set (epsilon_of h' q) \<subseteq> ?Q1" using eo1 closedD_eps [OF c1] by simp
      then show ?thesis using s2 by auto
    next
      case 6
      then have "set (epsilon_of h' q) \<subseteq> ?Q2" using eo2 closedD_eps [OF c2] by simp
      then show ?thesis using s1 by auto
    qed
    fix c ts assume e: "edges_of h' q c = Some ts"
    consider "q = hi" | "q = ?x" | "q \<in> ?Q1" | "q \<in> ?Q2" using q by force
    then show "set ts \<subseteq> ?Q"
    proof cases
      case 1 then show ?thesis using es e by simp
    next
      case 2 then show ?thesis using kx e by simp
    next
      case 3
      then have "set ts \<subseteq> ?Q1" using e ed1 closedD_edges [OF c1] by simp
      then show ?thesis using s2 by auto
    next
      case 4
      then have "set ts \<subseteq> ?Q2" using e ed2 closedD_edges [OF c2] by simp
      then show ?thesis using s1 by auto
    qed
  qed
  have lang: "nfa_path h' hi w ?x \<longleftrightarrow> w \<in> L1 \<union> L2" for w
  proof
    assume "nfa_path h' hi w ?x"
    then show "w \<in> L1 \<union> L2"
    proof (cases rule: nfa_path.cases)
      case path_refl
      then show ?thesis by simp
    next
      case (path_eps q)
      then have "q = ?s1 \<or> q = ?s2" using es by simp
      then show ?thesis
      proof
        assume "q = ?s1"
        then have "nfa_path h ?s1 w ?a1"
          using exit_path [OF c1 a1 x1 e1 kx eo1 ed1 _ s1 refl] path_eps(2) by simp
        then show ?thesis using l1 by simp
      next
        assume "q = ?s2"
        then have "nfa_path h ?s2 w ?a2"
          using exit_path [OF c2 a2 x2 e2 kx eo2 ed2 _ s2 refl] path_eps(2) by simp
        then show ?thesis using l2 by simp
      qed
    next
      case (path_sym c ts q w')
      then show ?thesis using es by simp
    qed
  next
    assume "w \<in> L1 \<union> L2"
    then show "nfa_path h' hi w ?x"
    proof
      assume "w \<in> L1"
      then have "nfa_path h' ?s1 w ?a1" using nfa_path_grows [OF c1 g1 _ s1] l1 by simp
      moreover have "nfa_path h' ?a1 [] ?x"
        using e1 by (auto intro: nfa_path.path_eps nfa_path.path_refl)
      ultimately have "nfa_path h' ?s1 (w @ []) ?x" by (rule nfa_path_trans)
      then show ?thesis using es by (auto intro: nfa_path.path_eps)
    next
      assume "w \<in> L2"
      then have "nfa_path h' ?s2 w ?a2" using nfa_path_grows [OF c2 g2 _ s2] l2 by simp
      moreover have "nfa_path h' ?a2 [] ?x"
        using e2 by (auto intro: nfa_path.path_eps nfa_path.path_refl)
      ultimately have "nfa_path h' ?s2 (w @ []) ?x" by (rule nfa_path_trans)
      then show ?thesis using es by (auto intro: nfa_path.path_eps)
    qed
  qed
  show ?thesis
    using s1 s2 len cl kx lang unfolding frag_ok_def by auto
qed

lemma frag_star:
  assumes f1: "frag_ok h lo hi f1 L1"
    and len: "hi + 2 \<le> length h'"
    and es: "epsilon_of h' hi = [start f1, hi + 1]" "edges_of h' hi = Map.empty"
    and kx: "epsilon_of h' (hi + 1) = []" "edges_of h' (hi + 1) = Map.empty"
    and e1: "epsilon_of h' (accept f1) = [start f1, hi + 1]"
    and eo: "\<forall>q < hi. q \<noteq> accept f1 \<longrightarrow> epsilon_of h' q = epsilon_of h q"
    and ed: "\<forall>q < hi. edges_of h' q = edges_of h q"
  shows "frag_ok h' lo (hi + 2) \<lparr>start = hi, accept = hi + 1\<rparr> (star L1)"
proof -
  let ?Q1 = "{lo..<hi}" and ?Q = "{lo..<hi + 2}"
  let ?s1 = "start f1" and ?a1 = "accept f1"
  let ?x = "hi + 1"
  from f1 have s1: "?s1 \<in> ?Q1" and a1: "?a1 \<in> ?Q1" and c1: "closed h ?Q1"
    and k1: "epsilon_of h ?a1 = []" "edges_of h ?a1 = Map.empty"
    and l1: "\<And>w. nfa_path h ?s1 w ?a1 \<longleftrightarrow> w \<in> L1"
    by (simp_all add: frag_ok_def)
  have x1: "?x \<notin> ?Q1" by auto
  have eo1: "\<forall>q \<in> ?Q1. q \<noteq> ?a1 \<longrightarrow> epsilon_of h' q = epsilon_of h q" using eo by auto
  have ed1: "\<forall>q \<in> ?Q1. edges_of h' q = edges_of h q" using ed by auto
  have g1: "grows_on h h' ?Q1"
    unfolding grows_on_def using eo1 ed1 k1 by (metis empty_iff empty_set subsetI subset_refl)
  have cl: "closed h' ?Q"
    unfolding closed_def
  proof (intro ballI conjI allI impI)
    fix q assume q: "q \<in> ?Q"
    consider "q = hi" | "q = ?x" | "q = ?a1" | "q \<in> ?Q1" "q \<noteq> ?a1"
      using q by force
    then show "set (epsilon_of h' q) \<subseteq> ?Q"
    proof cases
      case 1 then show ?thesis using es s1 by auto
    next
      case 2 then show ?thesis using kx by simp
    next
      case 3 then show ?thesis using e1 s1 by auto
    next
      case 4
      then have "set (epsilon_of h' q) \<subseteq> ?Q1" using eo1 closedD_eps [OF c1] by simp
      then show ?thesis by auto
    qed
    fix c ts assume e: "edges_of h' q c = Some ts"
    consider "q = hi" | "q = ?x" | "q \<in> ?Q1" using q by force
    then show "set ts \<subseteq> ?Q"
    proof cases
      case 1 then show ?thesis using es e by simp
    next
      case 2 then show ?thesis using kx e by simp
    next
      case 3
      then have "set ts \<subseteq> ?Q1" using e ed1 closedD_edges [OF c1] by simp
      then show ?thesis by auto
    qed
  qed
  have again: "v \<in> star L1 \<Longrightarrow> nfa_path h' ?a1 v ?x" for v
  proof (induction rule: star.induct)
    case star_nil
    show ?case using e1 by (auto intro: nfa_path.path_eps nfa_path.path_refl)
  next
    case (star_app u v)
    have "nfa_path h' ?s1 u ?a1" using nfa_path_grows [OF c1 g1 _ s1] l1 star_app(1) by simp
    then have "nfa_path h' ?s1 (u @ v) ?x" using star_app.IH by (rule nfa_path_trans)
    then show ?case using e1 by (auto intro: nfa_path.path_eps)
  qed
  have lang: "nfa_path h' hi w ?x \<longleftrightarrow> w \<in> star L1" for w
  proof
    assume "nfa_path h' hi w ?x"
    then show "w \<in> star L1"
    proof (cases rule: nfa_path.cases)
      case path_refl
      then show ?thesis by simp
    next
      case (path_eps q)
      then have "q = ?s1 \<or> q = ?x" using es by simp
      then show ?thesis
      proof
        assume "q = ?s1"
        then obtain u v where "w = u @ v" "nfa_path h ?s1 u ?a1" "v \<in> star L1"
          using loop_path [OF c1 s1 a1 x1 e1 kx eo1 ed1 l1 _ s1 refl] path_eps(2) by blast
        then show ?thesis using l1 by (auto intro: star.star_app)
      next
        assume "q = ?x"
        then have "w = []" using path_eps(2) nfa_path_sink [OF _ kx] by blast
        then show ?thesis by (simp add: star.star_nil)
      qed
    next
      case (path_sym c ts q w')
      then show ?thesis using es by simp
    qed
  next
    assume "w \<in> star L1"
    then show "nfa_path h' hi w ?x"
    proof (cases rule: star.cases)
      case star_nil
      then show ?thesis using es by (auto intro: nfa_path.path_eps nfa_path.path_refl)
    next
      case (star_app u v)
      have "nfa_path h' ?s1 u ?a1" using nfa_path_grows [OF c1 g1 _ s1] l1 star_app(2) by simp
      then have "nfa_path h' ?s1 (u @ v) ?x" using again [OF star_app(3)] by (rule nfa_path_trans)
      then show ?thesis using es star_app(1) by (auto intro: nfa_path.path_eps)
    qed
  qed
  show ?thesis
    using s1 len cl kx lang unfolding frag_ok_def by auto
qed

subsection \<open>The builder's operations on the arena\<close>

lemma length_extend_epsilon [simp]: "length (extend_epsilon h a ts) = length h"
  by (simp add: extend_epsilon_def)

lemma length_set_edge [simp]: "length (set_edge h a c ts) = length h"
  by (simp add: set_edge_def)

lemma epsilon_of_extend_epsilon:
  "epsilon_of (extend_epsilon h a ts) q =
     (if q = a \<and> a < length h then epsilon_of h a @ ts else epsilon_of h q)"
  by (auto simp: epsilon_of_def extend_epsilon_def)

lemma edges_of_extend_epsilon [simp]: "edges_of (extend_epsilon h a ts) = edges_of h"
proof
  fix q show "edges_of (extend_epsilon h a ts) q = edges_of h q"
    by (cases "q = a") (auto simp: edges_of_def extend_epsilon_def)
qed

lemma epsilon_of_set_edge [simp]: "epsilon_of (set_edge h a c ts) = epsilon_of h"
proof
  fix q show "epsilon_of (set_edge h a c ts) q = epsilon_of h q"
    by (cases "q = a") (auto simp: epsilon_of_def set_edge_def)
qed

lemma edges_of_set_edge:
  "edges_of (set_edge h a c ts) q =
     (if q = a \<and> a < length h then (edges_of h a)(c \<mapsto> ts) else edges_of h q)"
  by (auto simp: edges_of_def set_edge_def)

lemma epsilon_of_append2:
  "epsilon_of (h @ [x, y]) q =
     (if q < length h then epsilon_of h q
      else if q = length h then epsilon x
      else if q = length h + 1 then epsilon y else [])"
  by (auto simp: epsilon_of_def nth_append)

lemma edges_of_append2:
  "edges_of (h @ [x, y]) q =
     (if q < length h then edges_of h q
      else if q = length h then edges x
      else if q = length h + 1 then edges y else Map.empty)"
  by (auto simp: edges_of_def nth_append)

lemma bn_loop_append:
  "bn_loop st (xs @ ys) = (case bn_loop st xs of Inl e \<Rightarrow> Inl e | Inr st' \<Rightarrow> bn_loop st' ys)"
  by (induction xs arbitrary: st) (auto simp del: bn_step.simps split: sum.splits)

lemma step_lit:
  assumes "isalnum c"
  shows "\<exists>h' k'. bn_step (fs, h, k) c
            = Inr (\<lparr>start = length h, accept = length h + 1\<rparr> # fs, h', k') \<and>
          length h' = length h + 2 \<and> same_on h h' {..<length h} \<and>
          frag_ok h' (length h) (length h + 2) \<lparr>start = length h, accept = length h + 1\<rparr> {[c]}"
proof -
  let ?e = "\<lambda>k. \<lparr>sid = k, edges = Map.empty, epsilon = []\<rparr>"
  let ?h = "set_edge (h @ [?e k, ?e (k + 1)]) (length h) c [length h + 1]"
  have step: "bn_step (fs, h, k) c
      = Inr (\<lparr>start = length h, accept = length h + 1\<rparr> # fs, ?h, k + 2)"
    using assms by (simp add: new_State_def)
  have same: "same_on h ?h {..<length h}"
    unfolding same_on_def by (auto simp: edges_of_set_edge epsilon_of_append2 edges_of_append2)
  have "frag_ok ?h (length h) (length h + 2) \<lparr>start = length h, accept = length h + 1\<rparr> {[c]}"
    by (rule frag_lit)
       (auto simp: edges_of_set_edge epsilon_of_append2 edges_of_append2)
  then show ?thesis using step same by (intro exI [of _ ?h] exI [of _ "k + 2"]) simp
qed

lemma step_cat:
  assumes f1: "frag_ok h lo mid f1 L1" and f2: "frag_ok h mid (length h) f2 L2"
  shows "\<exists>h'. bn_step (f2 # f1 # fs, h, k) (CHR ''.'')
            = Inr (\<lparr>start = start f1, accept = accept f2\<rparr> # fs, h', k) \<and>
          length h' = length h \<and> same_on h h' {..<lo} \<and>
          frag_ok h' lo (length h) \<lparr>start = start f1, accept = accept f2\<rparr>
            {u @ v | u v. u \<in> L1 \<and> v \<in> L2}"
proof -
  let ?h = "extend_epsilon h (accept f1) [start f2]"
  from f1 have a1: "accept f1 \<in> {lo..<mid}" and k1: "epsilon_of h (accept f1) = []"
    by (simp_all add: frag_ok_def)
  from f2 have s2: "start f2 \<in> {mid..<length h}" by (simp add: frag_ok_def)
  have al: "accept f1 < length h" using a1 s2 by auto
  have step: "bn_step (f2 # f1 # fs, h, k) (CHR ''.'')
      = Inr (\<lparr>start = start f1, accept = accept f2\<rparr> # fs, ?h, k)"
    by simp
  have same: "same_on h ?h {..<lo}"
    unfolding same_on_def using a1 by (auto simp: epsilon_of_extend_epsilon)
  have "frag_ok ?h lo (length h) \<lparr>start = start f1, accept = accept f2\<rparr>
            {u @ v | u v. u \<in> L1 \<and> v \<in> L2}"
    by (rule frag_cat [OF f1 f2]) (auto simp: epsilon_of_extend_epsilon al k1)
  then show ?thesis using step same by (intro exI [of _ ?h]) simp
qed

lemma step_alt:
  assumes f1: "frag_ok h lo mid f1 L1" and f2: "frag_ok h mid (length h) f2 L2"
  shows "\<exists>h' k'. bn_step (f2 # f1 # fs, h, k) (CHR ''|'')
            = Inr (\<lparr>start = length h, accept = length h + 1\<rparr> # fs, h', k') \<and>
          length h' = length h + 2 \<and> same_on h h' {..<lo} \<and>
          frag_ok h' lo (length h + 2) \<lparr>start = length h, accept = length h + 1\<rparr> (L1 \<union> L2)"
proof -
  let ?e = "\<lambda>k. \<lparr>sid = k, edges = Map.empty, epsilon = []\<rparr>"
  let ?l = "length h"
  let ?h2 = "h @ [?e k, ?e (k + 1)]"
  let ?h = "extend_epsilon (extend_epsilon (extend_epsilon ?h2 ?l [start f1, start f2])
                (accept f1) [?l + 1]) (accept f2) [?l + 1]"
  from f1 have a1: "accept f1 \<in> {lo..<mid}" and k1: "epsilon_of h (accept f1) = []"
    by (simp_all add: frag_ok_def)
  from f2 have a2: "accept f2 \<in> {mid..<?l}" and k2: "epsilon_of h (accept f2) = []"
    by (simp_all add: frag_ok_def)
  have step: "bn_step (f2 # f1 # fs, h, k) (CHR ''|'')
      = Inr (\<lparr>start = ?l, accept = ?l + 1\<rparr> # fs, ?h, k + 2)"
    by (simp add: new_State_def)
  have same: "same_on h ?h {..<lo}"
    unfolding same_on_def using a1 a2
    by (auto simp: epsilon_of_extend_epsilon epsilon_of_append2 edges_of_append2)
  have "frag_ok ?h lo (?l + 2) \<lparr>start = ?l, accept = ?l + 1\<rparr> (L1 \<union> L2)"
    by (rule frag_alt [OF f1 f2])
       (use a1 a2 k1 k2 in \<open>auto simp: epsilon_of_extend_epsilon epsilon_of_append2 edges_of_append2\<close>)
  then show ?thesis using step same by (intro exI [of _ ?h] exI [of _ "k + 2"]) simp
qed

lemma step_star:
  assumes f1: "frag_ok h lo (length h) f1 L1"
  shows "\<exists>h' k'. bn_step (f1 # fs, h, k) (CHR ''*'')
            = Inr (\<lparr>start = length h, accept = length h + 1\<rparr> # fs, h', k') \<and>
          length h' = length h + 2 \<and> same_on h h' {..<lo} \<and>
          frag_ok h' lo (length h + 2) \<lparr>start = length h, accept = length h + 1\<rparr> (star L1)"
proof -
  let ?e = "\<lambda>k. \<lparr>sid = k, edges = Map.empty, epsilon = []\<rparr>"
  let ?l = "length h"
  let ?h2 = "h @ [?e k, ?e (k + 1)]"
  let ?h = "extend_epsilon (extend_epsilon ?h2 ?l [start f1, ?l + 1])
                (accept f1) [start f1, ?l + 1]"
  from f1 have a1: "accept f1 \<in> {lo..<?l}" and k1: "epsilon_of h (accept f1) = []"
    by (simp_all add: frag_ok_def)
  have step: "bn_step (f1 # fs, h, k) (CHR ''*'')
      = Inr (\<lparr>start = ?l, accept = ?l + 1\<rparr> # fs, ?h, k + 2)"
    by (simp add: new_State_def)
  have same: "same_on h ?h {..<lo}"
    unfolding same_on_def using a1
    by (auto simp: epsilon_of_extend_epsilon epsilon_of_append2 edges_of_append2)
  have "frag_ok ?h lo (?l + 2) \<lparr>start = ?l, accept = ?l + 1\<rparr> (star L1)"
    by (rule frag_star [OF f1])
       (use a1 k1 in \<open>auto simp: epsilon_of_extend_epsilon epsilon_of_append2 edges_of_append2\<close>)
  then show ?thesis using step same by (intro exI [of _ ?h] exI [of _ "k + 2"]) simp
qed

subsection \<open>The builder on the postfix string of an expression\<close>

text \<open>
  From any stack, arena and counter, the builder consumes the postfix string of r, leaves
  the old objects as they were and pushes one fragment that occupies exactly the new
  positions and spells the language of r.
\<close>

lemma thompson:
  assumes "literals_ok r"
  shows "\<exists>f h' k'. bn_loop (fs, h, k) (postfix_of r) = Inr (f # fs, h', k') \<and>
           length h \<le> length h' \<and> same_on h h' {..<length h} \<and>
           frag_ok h' (length h) (length h') f (lang r)"
  using assms
proof (induction r arbitrary: fs h k)
  case (Lit c)
  then have "isalnum c" by simp
  from step_lit [OF this, of fs h k] obtain h' k' where
    s: "bn_step (fs, h, k) c = Inr (\<lparr>start = length h, accept = length h + 1\<rparr> # fs, h', k')"
    and l: "length h' = length h + 2" and sm: "same_on h h' {..<length h}"
    and f: "frag_ok h' (length h) (length h + 2) \<lparr>start = length h, accept = length h + 1\<rparr> {[c]}"
    by blast
  have "bn_loop (fs, h, k) (postfix_of (Lit c))
        = Inr (\<lparr>start = length h, accept = length h + 1\<rparr> # fs, h', k')"
    using s by (simp del: bn_step.simps)
  then show ?case using l sm f by (intro exI conjI) (assumption, simp_all)
next
  case (Cat r1 r2)
  from Cat.prems have ok: "literals_ok r1" "literals_ok r2" by simp_all
  from Cat.IH(1) [OF ok(1), of fs h k] obtain f1 h1 k1 where
    r1: "bn_loop (fs, h, k) (postfix_of r1) = Inr (f1 # fs, h1, k1)"
    and l1: "length h \<le> length h1" and s1: "same_on h h1 {..<length h}"
    and g1: "frag_ok h1 (length h) (length h1) f1 (lang r1)" by blast
  from Cat.IH(2) [OF ok(2), of "f1 # fs" h1 k1] obtain f2 h2 k2 where
    r2: "bn_loop (f1 # fs, h1, k1) (postfix_of r2) = Inr (f2 # f1 # fs, h2, k2)"
    and l2: "length h1 \<le> length h2" and s2: "same_on h1 h2 {..<length h1}"
    and g2: "frag_ok h2 (length h1) (length h2) f2 (lang r2)" by blast
  have g1': "frag_ok h2 (length h) (length h1) f1 (lang r1)"
    by (rule frag_ok_frame [OF g1 same_on_mono [OF s2] l2]) auto
  from step_cat [OF g1' g2, of fs k2] obtain h3 where
    r3: "bn_step (f2 # f1 # fs, h2, k2) (CHR ''.'')
           = Inr (\<lparr>start = start f1, accept = accept f2\<rparr> # fs, h3, k2)"
    and l3: "length h3 = length h2" and s3: "same_on h2 h3 {..<length h}"
    and g3: "frag_ok h3 (length h) (length h2) \<lparr>start = start f1, accept = accept f2\<rparr>
               {u @ v | u v. u \<in> lang r1 \<and> v \<in> lang r2}" by blast
  have run: "bn_loop (fs, h, k) (postfix_of (Cat r1 r2))
        = Inr (\<lparr>start = start f1, accept = accept f2\<rparr> # fs, h3, k2)"
    using r1 r2 r3 by (simp add: bn_loop_append del: bn_step.simps)
  have sm: "same_on h h3 {..<length h}"
    using s1 same_on_mono [OF s2, of "{..<length h}"] s3 l1
    by (auto intro: same_on_trans)
  show ?case using run sm g3 l1 l2 l3 by (intro exI conjI) (assumption, simp_all)
next
  case (Alt r1 r2)
  from Alt.prems have ok: "literals_ok r1" "literals_ok r2" by simp_all
  from Alt.IH(1) [OF ok(1), of fs h k] obtain f1 h1 k1 where
    r1: "bn_loop (fs, h, k) (postfix_of r1) = Inr (f1 # fs, h1, k1)"
    and l1: "length h \<le> length h1" and s1: "same_on h h1 {..<length h}"
    and g1: "frag_ok h1 (length h) (length h1) f1 (lang r1)" by blast
  from Alt.IH(2) [OF ok(2), of "f1 # fs" h1 k1] obtain f2 h2 k2 where
    r2: "bn_loop (f1 # fs, h1, k1) (postfix_of r2) = Inr (f2 # f1 # fs, h2, k2)"
    and l2: "length h1 \<le> length h2" and s2: "same_on h1 h2 {..<length h1}"
    and g2: "frag_ok h2 (length h1) (length h2) f2 (lang r2)" by blast
  have g1': "frag_ok h2 (length h) (length h1) f1 (lang r1)"
    by (rule frag_ok_frame [OF g1 same_on_mono [OF s2] l2]) auto
  from step_alt [OF g1' g2, of fs k2] obtain h3 k3 where
    r3: "bn_step (f2 # f1 # fs, h2, k2) (CHR ''|'')
           = Inr (\<lparr>start = length h2, accept = length h2 + 1\<rparr> # fs, h3, k3)"
    and l3: "length h3 = length h2 + 2" and s3: "same_on h2 h3 {..<length h}"
    and g3: "frag_ok h3 (length h) (length h2 + 2) \<lparr>start = length h2, accept = length h2 + 1\<rparr>
               (lang r1 \<union> lang r2)" by blast
  have run: "bn_loop (fs, h, k) (postfix_of (Alt r1 r2))
        = Inr (\<lparr>start = length h2, accept = length h2 + 1\<rparr> # fs, h3, k3)"
    using r1 r2 r3 by (simp add: bn_loop_append del: bn_step.simps)
  have sm: "same_on h h3 {..<length h}"
    using s1 same_on_mono [OF s2, of "{..<length h}"] s3 l1
    by (auto intro: same_on_trans)
  show ?case using run sm g3 l1 l2 l3 by (intro exI conjI) (assumption, simp_all)
next
  case (Star r)
  from Star.prems have ok: "literals_ok r" by simp
  from Star.IH [OF ok, of fs h k] obtain f1 h1 k1 where
    r1: "bn_loop (fs, h, k) (postfix_of r) = Inr (f1 # fs, h1, k1)"
    and l1: "length h \<le> length h1" and s1: "same_on h h1 {..<length h}"
    and g1: "frag_ok h1 (length h) (length h1) f1 (lang r)" by blast
  from step_star [OF g1, of fs k1] obtain h3 k3 where
    r3: "bn_step (f1 # fs, h1, k1) (CHR ''*'')
           = Inr (\<lparr>start = length h1, accept = length h1 + 1\<rparr> # fs, h3, k3)"
    and l3: "length h3 = length h1 + 2" and s3: "same_on h1 h3 {..<length h}"
    and g3: "frag_ok h3 (length h) (length h1 + 2) \<lparr>start = length h1, accept = length h1 + 1\<rparr>
               (star (lang r))" by blast
  have run: "bn_loop (fs, h, k) (postfix_of (Star r))
        = Inr (\<lparr>start = length h1, accept = length h1 + 1\<rparr> # fs, h3, k3)"
    using r1 r3 by (simp add: bn_loop_append del: bn_step.simps)
  have sm: "same_on h h3 {..<length h}"
    using s1 s3 by (auto intro: same_on_trans)
  show ?case using run sm g3 l1 l3 by (intro exI conjI) (assumption, simp_all)
qed

lemma build_nfa_thompson:
  assumes "literals_ok r"
  shows "\<exists>n h k'. build_nfa (postfix_of r) k = Inr (n, h, k') \<and>
           (\<forall>w. nfa_accepts h n w \<longleftrightarrow> w \<in> lang r)"
proof -
  from thompson [OF assms, of "[]" "[]" k] obtain f h' k' where
    "bn_loop ([], [], k) (postfix_of r) = Inr ([f], h', k')"
    "frag_ok h' 0 (length h') f (lang r)" by auto
  then show ?thesis
    by (auto simp: build_nfa_def nfa_accepts_def frag_ok_def)
qed

subsection \<open>Failure and result of the builder\<close>

text \<open>
  Claim C4, as the code has it. The builder has no error of its own. It fails exactly
  when an operator finds fewer fragments than it pops, or when no fragment is left after
  the last token, and the failure is the \<^verbatim>\<open>IndexError\<close> of \<^verbatim>\<open>stack.pop()\<close>. When m + 1
  fragments are left after the last token, it returns the top fragment of the final
  stack, with the final arena, and leaves the m fragments beneath it unused, without any
  signal. The top fragment is the one built last: after tokens that leave m fragments,
  the postfix string of an expression r makes the builder return an NFA of r alone.
\<close>

theorem build_nfa_failure:
  "(frag_count 0 postfix = None \<or> frag_count 0 postfix = Some 0
      \<longrightarrow> build_nfa postfix k = Inl IndexError) \<and>
   (\<forall>m. frag_count 0 postfix = Some (Suc m) \<longrightarrow>
      (\<exists>n rest h k'. bn_loop ([], [], k) postfix = Inr (n # rest, h, k') \<and> length rest = m \<and>
                      build_nfa postfix k = Inr (n, h, k'))) \<and>
   (\<forall>m. frag_count 0 p1 = Some m \<longrightarrow> literals_ok r \<longrightarrow>
      (\<exists>n h k'. build_nfa (p1 @ postfix_of r) k = Inr (n, h, k') \<and>
                 (\<forall>w. nfa_accepts h n w \<longleftrightarrow> w \<in> lang r)))"
proof (intro conjI allI impI)
  assume "frag_count 0 postfix = None \<or> frag_count 0 postfix = Some 0"
  then show "build_nfa postfix k = Inl IndexError"
    using bn_loop_count [where stack="[]" and p=postfix and h="[]" and k=k]
    by (auto simp: build_nfa_def)
next
  fix m assume "frag_count 0 postfix = Some (Suc m)"
  then obtain stack' h k' where
    l: "bn_loop ([], [], k) postfix = Inr (stack', h, k')" "length stack' = Suc m"
    using bn_loop_count [where stack="[]" and p=postfix and h="[]" and k=k] by auto
  then obtain n rest where s: "stack' = n # rest" "length rest = m" by (cases stack') auto
  then have "build_nfa postfix k = Inr (n, h, k')" using l by (simp add: build_nfa_def)
  then show "\<exists>n rest h k'. bn_loop ([], [], k) postfix = Inr (n # rest, h, k') \<and> length rest = m \<and>
                      build_nfa postfix k = Inr (n, h, k')"
    using l s by blast
next
  fix m assume c: "frag_count 0 p1 = Some m" and ok: "literals_ok r"
  from c obtain fs h1 k1 where l: "bn_loop ([], [], k) p1 = Inr (fs, h1, k1)"
    using bn_loop_count [where stack="[]" and p=p1 and h="[]" and k=k] by auto
  from thompson [OF ok, of fs h1 k1] obtain f h' k' where
    t: "bn_loop (fs, h1, k1) (postfix_of r) = Inr (f # fs, h', k')"
    and f: "frag_ok h' (length h1) (length h') f (lang r)" by blast
  have "build_nfa (p1 @ postfix_of r) k = Inr (f, h', k')"
    using l t by (simp add: build_nfa_def bn_loop_append)
  moreover have "\<forall>w. nfa_accepts h' f w \<longleftrightarrow> w \<in> lang r"
    using f by (simp add: frag_ok_def nfa_accepts_def)
  ultimately show "\<exists>n h k'. build_nfa (p1 @ postfix_of r) k = Inr (n, h, k') \<and>
                 (\<forall>w. nfa_accepts h n w \<longleftrightarrow> w \<in> lang r)"
    by blast
qed

theorem build_nfa_failure_witness:
  "frag_count 0 ''a.'' = None \<and> build_nfa ''a.'' 0 = Inl IndexError \<and>
   frag_count 0 '''' = Some 0 \<and> build_nfa '''' 0 = Inl IndexError \<and>
   frag_count 0 ''ab'' = Some (Suc 1) \<and>
   (\<exists>n rest h k'. bn_loop ([], [], 0) ''ab'' = Inr (n # rest, h, k') \<and> length rest = 1 \<and>
                   build_nfa ''ab'' 0 = Inr (n, h, k')) \<and>
   frag_count 0 ''a'' = Some 1 \<and> literals_ok (Lit (CHR ''b'')) \<and>
   (\<exists>n h k'. build_nfa (''a'' @ postfix_of (Lit (CHR ''b''))) 0 = Inr (n, h, k') \<and>
              nfa_accepts h n ''b'' \<and> \<not> nfa_accepts h n ''a'' \<and> \<not> nfa_accepts h n ''ab'')"
proof -
  have 1: "frag_count 0 ''a.'' = None" "frag_count 0 '''' = Some 0"
    "frag_count 0 ''ab'' = Some (Suc 1)" "frag_count 0 ''a'' = Some 1"
    "literals_ok (Lit (CHR ''b''))"
    by (simp_all add: isalnum_def)
  have 2: "build_nfa ''a.'' 0 = Inl IndexError" "build_nfa '''' 0 = Inl IndexError"
    using build_nfa_failure [of "''a.''" 0] build_nfa_failure [of "''''" 0] 1 by simp_all
  have 3: "\<exists>n rest h k'. bn_loop ([], [], 0) ''ab'' = Inr (n # rest, h, k') \<and> length rest = 1 \<and>
                   build_nfa ''ab'' 0 = Inr (n, h, k')"
    using build_nfa_failure [of "''ab''" 0] 1(3) by blast
  from build_nfa_failure [where ?p1.0="''a''" and r="Lit (CHR ''b'')" and k=0] 1(4,5)
  obtain n h k' where b: "build_nfa (''a'' @ postfix_of (Lit (CHR ''b''))) 0 = Inr (n, h, k')"
    and l: "\<And>w. nfa_accepts h n w \<longleftrightarrow> w \<in> lang (Lit (CHR ''b''))" by blast
  have "nfa_accepts h n ''b'' \<and> \<not> nfa_accepts h n ''a'' \<and> \<not> nfa_accepts h n ''ab''"
    by (simp add: l)
  with b have 4: "\<exists>n h k'. build_nfa (''a'' @ postfix_of (Lit (CHR ''b''))) 0 = Inr (n, h, k') \<and>
       nfa_accepts h n ''b'' \<and> \<not> nfa_accepts h n ''a'' \<and> \<not> nfa_accepts h n ''ab''"
    by blast
  from 1 2 3 4 show ?thesis by blast
qed

text \<open>
  Against claim C4 as stated: a missing operand and the empty postfix string end in the
  generic \<^verbatim>\<open>IndexError\<close>, and with two fragments left (\<^verbatim>\<open>ab\<close>) the builder returns the
  top fragment, the one for \<^verbatim>\<open>b\<close>, without any error.
\<close>

theorem build_nfa_no_invariant_error:
  "build_nfa ''a*|'' 0 = Inl IndexError \<and> build_nfa '''' 0 = Inl IndexError \<and>
   build_nfa ''ab'' 0 =
     Inr (\<lparr>start = 2, accept = 3\<rparr>,
          [\<lparr>sid = 0, edges = [CHR ''a'' \<mapsto> [1]], epsilon = []\<rparr>,
           \<lparr>sid = 1, edges = Map.empty, epsilon = []\<rparr>,
           \<lparr>sid = 2, edges = [CHR ''b'' \<mapsto> [3]], epsilon = []\<rparr>,
           \<lparr>sid = 3, edges = Map.empty, epsilon = []\<rparr>], 4)"
  by (simp add: build_nfa_def isalnum_def new_State_def set_edge_def extend_epsilon_def
      numeral_3_eq_3)

section \<open>The postfix converter on the supported grammar\<close>

lemma grammar_wellformed:
  shows "regex_atom s r \<Longrightarrow> wellformed s r"
    and "regex_post s r \<Longrightarrow> wellformed s r"
    and "regex_cat s r \<Longrightarrow> wellformed s r"
    and "regex_alt s r \<Longrightarrow> wellformed s r"
  by (induction rule: regex_atom_regex_post_regex_cat_regex_alt.inducts)
     (auto simp: wellformed_def joins_def)

subsection \<open>Draining the operator stack\<close>

lemma drain_barrier: "barrier l stack \<Longrightarrow> drain l out stack = (out, stack)"
  by (cases stack) (auto simp: barrier_def)

lemma drain_pending:
  assumes "\<forall>x \<in> set p. l \<le> precedence_get x" "barrier l stack"
  shows "drain l out (p @ stack) = (out @ p, stack)"
  using assms by (induction p arbitrary: out) (auto simp: drain_barrier)

lemma drain_group_pending:
  assumes "CHR ''('' \<notin> set p"
  shows "drain_group out (p @ CHR ''('' # stack) = (out @ p, CHR ''('' # stack)"
  using assms by (induction p arbitrary: out) auto

lemma pending_no_open:
  assumes "\<forall>x \<in> set p. 1 \<le> precedence_get x"
  shows "CHR ''('' \<notin> set p"
proof
  assume "CHR ''('' \<in> set p"
  then have "1 \<le> precedence_get (CHR ''('')" using assms by blast
  then show False by simp
qed

lemma barrier_mono: "barrier l stack \<Longrightarrow> l \<le> m \<Longrightarrow> barrier m stack"
  by (auto simp: barrier_def)

lemma pf_loop_append:
  "pf_loop st (xs @ ys) = (case pf_loop st xs of Inl e \<Rightarrow> Inl e | Inr st' \<Rightarrow> pf_loop st' ys)"
  by (induction xs arbitrary: st) (auto simp del: pf_step.simps split: sum.splits)

lemma pf_step_literal:
  assumes "isalnum c" "prelude (output, stack, prev) = (output0, stack0)"
  shows "pf_step (output, stack, prev) c = Inr (output0 @ [c], stack0, Some c)"
  using assms by (auto simp: prelude_def split: prod.splits if_splits)

lemma pf_step_open:
  assumes "prelude (output, stack, prev) = (output0, stack0)"
  shows "pf_step (output, stack, prev) (CHR ''('')
         = Inr (output0, CHR ''('' # stack0, Some (CHR ''(''))"
  using assms by (auto simp: prelude_def split: prod.splits if_splits)

lemma pf_step_close:
  assumes "\<forall>x \<in> set p. 1 \<le> precedence_get x"
  shows "pf_step (output, p @ CHR ''('' # stack, prev) (CHR '')'')
         = Inr (output @ p, stack, Some (CHR '')''))"
  using drain_group_pending [OF pending_no_open [OF assms]] by simp

lemma pf_step_star:
  assumes "\<forall>x \<in> set p. 3 \<le> precedence_get x" "barrier 3 stack"
  shows "pf_step (output, p @ stack, prev) (CHR ''*'')
         = Inr (output @ p, CHR ''*'' # stack, Some (CHR ''*''))"
  using drain_pending [OF assms] by (simp add: dom_precedence)

lemma pf_step_bar:
  assumes "\<forall>x \<in> set p. 1 \<le> precedence_get x" "barrier 1 stack"
  shows "pf_step (output, p @ stack, prev) (CHR ''|'')
         = Inr (output @ p, CHR ''|'' # stack, Some (CHR ''|''))"
  using drain_pending [OF assms] by (simp add: dom_precedence)

lemma prelude_joins:
  assumes "joins prev" "\<forall>x \<in> set p. 2 \<le> precedence_get x" "barrier 2 stack"
  shows "prelude (output, p @ stack, prev) = (output @ p, CHR ''.'' # stack)"
  using drain_pending [OF assms(2,3)] assms(1) by (simp add: prelude_def)

lemma prelude_plain: "\<not> joins prev \<Longrightarrow> prelude (output, stack, prev) = (output, stack)"
  by (simp add: prelude_def)

lemma prelude_barrier:
  assumes "prelude (output, stack, prev) = (output0, stack0)" "joins prev \<or> barrier 3 stack"
  shows "barrier 3 stack0"
  using assms by (auto simp: prelude_def barrier_def split: prod.splits if_splits)

subsection \<open>The conversion, level by level\<close>

lemma conv_literal: "isalnum c \<Longrightarrow> conv_atom [c] (Lit c)"
  unfolding conv_atom_def
  by (auto simp del: pf_step.simps simp: pf_step_literal)

lemma conv_group:
  assumes "conv_level 1 s r" "s \<noteq> []"
  shows "conv_atom (CHR ''('' # s @ '')'') r"
  unfolding conv_atom_def
proof (intro allI impI)
  fix out stack prev out0 stack0
  assume pre: "prelude (out, stack, prev) = (out0, stack0)"
  have nj: "\<not> joins (Some (CHR ''(''))" by (simp add: joins_def)
  have b: "barrier 1 (CHR ''('' # stack0)" by (simp add: barrier_def)
  from assms(1) [unfolded conv_level_def, rule_format, OF nj b, of out0] obtain o' p where
    run: "pf_loop (out0, CHR ''('' # stack0, Some (CHR ''('')) s
            = Inr (out0 @ o', p @ CHR ''('' # stack0, Some (last s))"
    and op: "o' @ p = postfix_of r" and pp: "\<forall>x \<in> set p. 1 \<le> precedence_get x"
    by blast
  have "pf_loop (out, stack, prev) (CHR ''('' # s @ '')'')
        = pf_loop (out0, CHR ''('' # stack0, Some (CHR ''('')) (s @ '')'')"
    using pf_step_open [OF pre] by (simp del: pf_step.simps)
  also have "\<dots> = pf_loop (out0 @ o', p @ CHR ''('' # stack0, Some (last s)) '')''"
    using run by (simp add: pf_loop_append)
  also have "\<dots> = Inr ((out0 @ o') @ p, stack0, Some (CHR '')''))"
    using pf_step_close [OF pp] by (simp del: pf_step.simps)
  finally show "pf_loop (out, stack, prev) (CHR ''('' # s @ '')'')
        = Inr (out0 @ postfix_of r, stack0, Some (last (CHR ''('' # s @ '')'')))"
    using op by simp
qed

lemma conv_atom_post:
  assumes "conv_atom s r"
  shows "conv_post s r"
  unfolding conv_post_def
proof (intro allI impI)
  fix out stack prev out0 stack0
  assume pre: "prelude (out, stack, prev) = (out0, stack0)"
  from assms [unfolded conv_atom_def, rule_format, OF pre]
  have "pf_loop (out, stack, prev) s
          = Inr (out0 @ postfix_of r, [] @ stack0, Some (last s)) \<and>
        postfix_of r @ [] = postfix_of r \<and> (\<forall>x \<in> set []. 3 \<le> precedence_get x)"
    by simp
  then show "\<exists>o' p. pf_loop (out, stack, prev) s = Inr (out0 @ o', p @ stack0, Some (last s)) \<and>
                o' @ p = postfix_of r \<and> (\<forall>x \<in> set p. 3 \<le> precedence_get x)"
    by blast
qed

lemma conv_starred:
  assumes "conv_post s r"
  shows "conv_post (s @ ''*'') (Star r)"
  unfolding conv_post_def
proof (intro allI impI)
  fix out stack prev out0 stack0
  assume pre: "prelude (out, stack, prev) = (out0, stack0)" and b: "barrier 3 stack0"
  from assms [unfolded conv_post_def, rule_format, OF pre b] obtain o' p where
    run: "pf_loop (out, stack, prev) s = Inr (out0 @ o', p @ stack0, Some (last s))"
    and op: "o' @ p = postfix_of r" and pp: "\<forall>x \<in> set p. 3 \<le> precedence_get x"
    by blast
  have "pf_loop (out, stack, prev) (s @ ''*'')
        = pf_loop (out0 @ o', p @ stack0, Some (last s)) ''*''"
    using run by (simp add: pf_loop_append)
  also have "\<dots> = Inr ((out0 @ o') @ p, CHR ''*'' # stack0, Some (CHR ''*''))"
    using pf_step_star [OF pp b] by (simp del: pf_step.simps)
  finally have "pf_loop (out, stack, prev) (s @ ''*'')
          = Inr (out0 @ (o' @ p), ''*'' @ stack0, Some (last (s @ ''*''))) \<and>
        (o' @ p) @ ''*'' = postfix_of (Star r) \<and> (\<forall>x \<in> set ''*''. 3 \<le> precedence_get x)"
    using op by simp
  then show "\<exists>o' p. pf_loop (out, stack, prev) (s @ ''*'')
                = Inr (out0 @ o', p @ stack0, Some (last (s @ ''*''))) \<and>
                o' @ p = postfix_of (Star r) \<and> (\<forall>x \<in> set p. 3 \<le> precedence_get x)"
    by blast
qed

lemma conv_post_cat:
  assumes "conv_post s r"
  shows "conv_level 2 s r"
  unfolding conv_level_def
proof (intro allI impI)
  fix out stack prev
  assume nj: "\<not> joins prev" and b: "barrier 2 stack"
  have b3: "barrier 3 stack" using b by (rule barrier_mono) simp
  from assms [unfolded conv_post_def, rule_format, OF prelude_plain [OF nj] b3] obtain o' p where
    "pf_loop (out, stack, prev) s = Inr (out @ o', p @ stack, Some (last s))"
    "o' @ p = postfix_of r" "\<forall>x \<in> set p. 3 \<le> precedence_get x" by blast
  moreover from this(3) have "\<forall>x \<in> set p. 2 \<le> precedence_get x" by auto
  ultimately show "\<exists>o' p. pf_loop (out, stack, prev) s = Inr (out @ o', p @ stack, Some (last s)) \<and>
                o' @ p = postfix_of r \<and> (\<forall>x \<in> set p. 2 \<le> precedence_get x)"
    by blast
qed

lemma conv_concat:
  assumes "conv_level 2 s1 r1" "conv_post s2 r2" "joins (Some (last s1))" "s2 \<noteq> []"
  shows "conv_level 2 (s1 @ s2) (Cat r1 r2)"
  unfolding conv_level_def
proof (intro allI impI)
  fix out stack prev
  assume nj: "\<not> joins prev" and b: "barrier 2 stack"
  from assms(1) [unfolded conv_level_def, rule_format, OF nj b, of out] obtain o1 p1 where
    run1: "pf_loop (out, stack, prev) s1 = Inr (out @ o1, p1 @ stack, Some (last s1))"
    and op1: "o1 @ p1 = postfix_of r1" and pp1: "\<forall>x \<in> set p1. 2 \<le> precedence_get x"
    by blast
  have pre: "prelude (out @ o1, p1 @ stack, Some (last s1)) = ((out @ o1) @ p1, CHR ''.'' # stack)"
    by (rule prelude_joins [OF assms(3) pp1 b])
  have b3: "barrier 3 (CHR ''.'' # stack)" by (simp add: barrier_def)
  from assms(2) [unfolded conv_post_def, rule_format, OF pre b3] obtain o2 p2 where
    run2: "pf_loop (out @ o1, p1 @ stack, Some (last s1)) s2
             = Inr (((out @ o1) @ p1) @ o2, p2 @ CHR ''.'' # stack, Some (last s2))"
    and op2: "o2 @ p2 = postfix_of r2" and pp2: "\<forall>x \<in> set p2. 3 \<le> precedence_get x"
    by blast
  have "pf_loop (out, stack, prev) (s1 @ s2)
          = Inr (out @ (o1 @ p1 @ o2), (p2 @ ''.'') @ stack, Some (last (s1 @ s2)))"
    using run1 run2 assms(4) by (simp add: pf_loop_append)
  moreover have "(o1 @ p1 @ o2) @ (p2 @ ''.'') = postfix_of (Cat r1 r2)"
    using op1 op2 by (metis append.assoc postfix_of.simps(2))
  moreover have "\<forall>x \<in> set (p2 @ ''.''). 2 \<le> precedence_get x"
    using pp2 by auto
  ultimately show "\<exists>o' p. pf_loop (out, stack, prev) (s1 @ s2)
                = Inr (out @ o', p @ stack, Some (last (s1 @ s2))) \<and>
                o' @ p = postfix_of (Cat r1 r2) \<and> (\<forall>x \<in> set p. 2 \<le> precedence_get x)"
    by blast
qed

lemma conv_cat_alt:
  assumes "conv_level 2 s r"
  shows "conv_level 1 s r"
  unfolding conv_level_def
proof (intro allI impI)
  fix out stack prev
  assume nj: "\<not> joins prev" and b: "barrier 1 stack"
  have b2: "barrier 2 stack" using b by (rule barrier_mono) simp
  from assms [unfolded conv_level_def, rule_format, OF nj b2, of out] obtain o' p where
    "pf_loop (out, stack, prev) s = Inr (out @ o', p @ stack, Some (last s))"
    "o' @ p = postfix_of r" "\<forall>x \<in> set p. 2 \<le> precedence_get x" by blast
  moreover from this(3) have "\<forall>x \<in> set p. 1 \<le> precedence_get x" by auto
  ultimately show "\<exists>o' p. pf_loop (out, stack, prev) s = Inr (out @ o', p @ stack, Some (last s)) \<and>
                o' @ p = postfix_of r \<and> (\<forall>x \<in> set p. 1 \<le> precedence_get x)"
    by blast
qed

lemma conv_union:
  assumes "conv_level 1 s1 r1" "conv_level 2 s2 r2" "s2 \<noteq> []"
  shows "conv_level 1 (s1 @ CHR ''|'' # s2) (Alt r1 r2)"
  unfolding conv_level_def
proof (intro allI impI)
  fix out stack prev
  assume nj: "\<not> joins prev" and b: "barrier 1 stack"
  from assms(1) [unfolded conv_level_def, rule_format, OF nj b, of out] obtain o1 p1 where
    run1: "pf_loop (out, stack, prev) s1 = Inr (out @ o1, p1 @ stack, Some (last s1))"
    and op1: "o1 @ p1 = postfix_of r1" and pp1: "\<forall>x \<in> set p1. 1 \<le> precedence_get x"
    by blast
  have bar: "pf_step (out @ o1, p1 @ stack, Some (last s1)) (CHR ''|'')
        = Inr ((out @ o1) @ p1, CHR ''|'' # stack, Some (CHR ''|''))"
    by (rule pf_step_bar [OF pp1 b])
  have nj2: "\<not> joins (Some (CHR ''|''))" by (simp add: joins_def)
  have b2: "barrier 2 (CHR ''|'' # stack)" by (simp add: barrier_def)
  from assms(2) [unfolded conv_level_def, rule_format, OF nj2 b2, of "(out @ o1) @ p1"]
  obtain o2 p2 where
    run2: "pf_loop ((out @ o1) @ p1, CHR ''|'' # stack, Some (CHR ''|'')) s2
             = Inr (((out @ o1) @ p1) @ o2, p2 @ CHR ''|'' # stack, Some (last s2))"
    and op2: "o2 @ p2 = postfix_of r2" and pp2: "\<forall>x \<in> set p2. 2 \<le> precedence_get x"
    by blast
  have "pf_loop (out, stack, prev) (s1 @ CHR ''|'' # s2)
          = Inr (out @ (o1 @ p1 @ o2), (p2 @ ''|'') @ stack, Some (last (s1 @ CHR ''|'' # s2)))"
    using run1 bar run2 assms(3) by (simp add: pf_loop_append del: pf_step.simps)
  moreover have "(o1 @ p1 @ o2) @ (p2 @ ''|'') = postfix_of (Alt r1 r2)"
    using op1 op2 by (metis append.assoc postfix_of.simps(3))
  moreover have "\<forall>x \<in> set (p2 @ ''|''). 1 \<le> precedence_get x"
    using pp2 by auto
  ultimately show "\<exists>o' p. pf_loop (out, stack, prev) (s1 @ CHR ''|'' # s2)
                = Inr (out @ o', p @ stack, Some (last (s1 @ CHR ''|'' # s2))) \<and>
                o' @ p = postfix_of (Alt r1 r2) \<and> (\<forall>x \<in> set p. 1 \<le> precedence_get x)"
    by blast
qed

lemma grammar_converts:
  shows "regex_atom s r \<Longrightarrow> conv_atom s r"
    and "regex_post s r \<Longrightarrow> conv_post s r"
    and "regex_cat s r \<Longrightarrow> conv_level 2 s r"
    and "regex_alt s r \<Longrightarrow> conv_level 1 s r"
proof (induction rule: regex_atom_regex_post_regex_cat_regex_alt.inducts)
  case (literal c)
  then show ?case by (rule conv_literal)
next
  case (group s r)
  have "s \<noteq> []" using grammar_wellformed(4) [OF group.hyps] by (simp add: wellformed_def)
  with group.IH show ?case by (rule conv_group)
next
  case (atom s r)
  from atom.IH show ?case by (rule conv_atom_post)
next
  case (starred s r)
  from starred.IH show ?case by (rule conv_starred)
next
  case (post s r)
  from post.IH show ?case by (rule conv_post_cat)
next
  case (concat s1 r1 s2 r2)
  have "joins (Some (last s1))" using grammar_wellformed(3) [OF concat.hyps(1)]
    by (simp add: wellformed_def)
  moreover have "s2 \<noteq> []" using grammar_wellformed(2) [OF concat.hyps(2)]
    by (simp add: wellformed_def)
  ultimately show ?case using concat.IH by (intro conv_concat)
next
  case (cat s r)
  from cat.IH show ?case by (rule conv_cat_alt)
next
  case (union s1 r1 s2 r2)
  have "s2 \<noteq> []" using grammar_wellformed(3) [OF union.hyps(2)]
    by (simp add: wellformed_def)
  then show ?case using union.IH by (intro conv_union)
qed

lemma to_postfix_grammar:
  assumes "regex_alt regex r"
  shows "to_postfix regex = Inr (postfix_of r)"
proof -
  have nj: "\<not> joins None" by (simp add: joins_def)
  have b: "barrier 1 []" by (simp add: barrier_def)
  from grammar_converts(4) [OF assms, unfolded conv_level_def, rule_format, OF nj b, of "[]"]
  obtain o' p where "pf_loop ([], [], None) regex = Inr ([] @ o', p @ [], Some (last regex))"
    "o' @ p = postfix_of r" by blast
  then show ?thesis by (simp add: to_postfix_def)
qed

subsection \<open>Characters outside the supported set\<close>

text \<open>
  An explicit dot between a concatenation and a starred atom is converted as the
  concatenation of the two.
\<close>

lemma explicit_dot:
  assumes "regex_cat s1 r1" "regex_post s2 r2"
  shows "to_postfix (s1 @ CHR ''.'' # s2) = Inr (postfix_of (Cat r1 r2))"
proof -
  have nj: "\<not> joins None" by (simp add: joins_def)
  have b: "barrier 2 []" by (simp add: barrier_def)
  from grammar_converts(3) [OF assms(1), unfolded conv_level_def, rule_format, OF nj b, of "[]"]
  obtain o1 p1 where
    1: "pf_loop ([], [], None) s1 = Inr ([] @ o1, p1 @ [], Some (last s1))"
    and op1: "o1 @ p1 = postfix_of r1" and pp1: "\<forall>x \<in> set p1. 2 \<le> precedence_get x"
    by blast
  have 2: "pf_step (o1, p1 @ [], Some (last s1)) (CHR ''.'')
           = Inr (o1 @ p1, ''.'', Some (CHR ''.''))"
    using drain_pending [OF pp1 b, of o1] by (simp add: dom_precedence)
  have pre: "prelude (o1 @ p1, ''.'', Some (CHR ''.'')) = (o1 @ p1, ''.'')"
    by (simp add: prelude_def joins_def)
  have b3: "barrier 3 ''.''" by (simp add: barrier_def)
  from grammar_converts(2) [OF assms(2), unfolded conv_post_def, rule_format, OF pre b3]
  obtain o2 p2 where
    3: "pf_loop (o1 @ p1, ''.'', Some (CHR ''.'')) s2
          = Inr ((o1 @ p1) @ o2, p2 @ ''.'', Some (last s2))"
    and op2: "o2 @ p2 = postfix_of r2" by blast
  have "pf_loop ([], [], None) (s1 @ CHR ''.'' # s2)
        = Inr ((o1 @ p1) @ o2, p2 @ ''.'', Some (last s2))"
    using 1 2 3 by (simp add: pf_loop_append del: pf_step.simps)
  then have "to_postfix (s1 @ CHR ''.'' # s2) = Inr (o1 @ p1 @ o2 @ p2 @ ''.'')"
    by (simp add: to_postfix_def)
  then show ?thesis using op1 op2 by (metis append_assoc postfix_of.simps(2))
qed

text \<open>
  Claim C3, as the code has it. A character that is neither alphanumeric nor one of
  \<^verbatim>\<open>( ) | * .\<close> matches no branch of the converter: the iteration leaves output and stack
  as they are and the character only becomes \<^verbatim>\<open>prev\<close>. Such characters cause no failure
  (the conversion fails on a regex iff it fails on the regex without them), and none of
  them reaches the postfix string, which holds the literals of the regex in their order
  and otherwise only operators and flushed opening parentheses; the builder returns the
  same with or without them. The dot is no such character: it is a key of the precedence
  table, so the converter takes it as an operator, draining the operators of precedence
  two or more and pushing it, and an explicit dot between a concatenation and a starred
  atom is converted as their juxtaposition.
\<close>

theorem unsupported_chars_discarded:
  "(unsupported c \<longrightarrow>
      pf_loop (out, stack, prev) (c # cs) = pf_loop (out, stack, Some c) cs \<and>
      \<not> joins (Some c)) \<and>
   (isl (to_postfix regex) \<longleftrightarrow> isl (to_postfix (filter (\<lambda>x. \<not> unsupported x) regex))) \<and>
   (\<forall>postfix. to_postfix regex = Inr postfix \<longrightarrow>
      filter isalnum postfix = filter isalnum regex \<and>
      (\<forall>x \<in> set postfix. isalnum x \<or> x \<in> {CHR ''('', CHR ''*'', CHR ''.'', CHR ''|''})) \<and>
   build_nfa (filter (\<lambda>x. \<not> unsupported x) p) k = build_nfa p k \<and>
   pf_step (out, stack, prev) (CHR ''.'') =
     (case drain 2 out stack of (out', stack') \<Rightarrow>
        Inr (out', CHR ''.'' # stack', Some (CHR ''.''))) \<and>
   (regex_cat s1 r1 \<longrightarrow> regex_post s2 r2 \<longrightarrow>
      to_postfix (s1 @ CHR ''.'' # s2) = to_postfix (s1 @ s2))"
proof (intro conjI allI impI)
  assume "unsupported c"
  then show "pf_loop (out, stack, prev) (c # cs) = pf_loop (out, stack, Some c) cs"
    by (simp add: unsupported_def dom_precedence)
next
  assume "unsupported c"
  then show "\<not> joins (Some c)" by (simp add: unsupported_def joins_def)
next
  show "isl (to_postfix regex) \<longleftrightarrow> isl (to_postfix (filter (\<lambda>x. \<not> unsupported x) regex))"
    by (simp only: to_postfix_fails_iff unmatched_close_supported)
next
  fix postfix assume "to_postfix regex = Inr postfix"
  then show "filter isalnum postfix = filter isalnum regex"
    by (simp add: to_postfix_tokens)
next
  fix postfix assume "to_postfix regex = Inr postfix"
  then show "\<forall>x \<in> set postfix. isalnum x \<or> x \<in> {CHR ''('', CHR ''*'', CHR ''.'', CHR ''|''}"
    using to_postfix_tokens by blast
next
  show "build_nfa (filter (\<lambda>x. \<not> unsupported x) p) k = build_nfa p k"
    by (simp only: build_nfa_def bn_loop_supported)
next
  show "pf_step (out, stack, prev) (CHR ''.'') =
     (case drain 2 out stack of (out', stack') \<Rightarrow>
        Inr (out', CHR ''.'' # stack', Some (CHR ''.'')))"
    by (rule pf_step_dot)
next
  assume c: "regex_cat s1 r1" and p: "regex_post s2 r2"
  have "regex_alt (s1 @ s2) (Cat r1 r2)" using c p by (intro cat concat)
  then show "to_postfix (s1 @ CHR ''.'' # s2) = to_postfix (s1 @ s2)"
    by (simp only: explicit_dot [OF c p] to_postfix_grammar)
qed

theorem unsupported_chars_discarded_witness:
  "unsupported (CHR ''+'') \<and>
   pf_loop (''a'', [], Some (CHR ''a'')) ''+b'' = pf_loop (''a'', [], Some (CHR ''+'')) ''b'' \<and>
   \<not> joins (Some (CHR ''+'')) \<and>
   isl (to_postfix ''(a+))'') = isl (to_postfix (filter (\<lambda>x. \<not> unsupported x) ''(a+))'')) \<and>
   to_postfix ''a+b'' = Inr ''ab'' \<and> filter isalnum ''ab'' = filter isalnum ''a+b'' \<and>
   CHR ''+'' \<notin> set ''ab'' \<and>
   build_nfa (filter (\<lambda>x. \<not> unsupported x) ''a+b.'') 0 = build_nfa ''a+b.'' 0 \<and>
   pf_step (''a'', [], Some (CHR ''a'')) (CHR ''.'') = Inr (''a'', ''.'', Some (CHR ''.'')) \<and>
   regex_cat ''a'' (Lit (CHR ''a'')) \<and> regex_post ''b'' (Lit (CHR ''b'')) \<and>
   to_postfix ''a.b'' = to_postfix ''ab''"
proof -
  have u: "unsupported (CHR ''+'')" by (simp add: unsupported_def isalnum_def)
  have a: "regex_cat ''a'' (Lit (CHR ''a''))"
    by (intro post atom literal) (simp add: isalnum_def)
  have b: "regex_post ''b'' (Lit (CHR ''b''))"
    by (intro atom literal) (simp add: isalnum_def)
  have t: "to_postfix ''a+b'' = Inr ''ab''"
    by (simp add: to_postfix_def isalnum_def joins_def dom_precedence)
  have 1: "pf_loop (''a'', [], Some (CHR ''a'')) ''+b'' = pf_loop (''a'', [], Some (CHR ''+'')) ''b''"
    "\<not> joins (Some (CHR ''+''))"
    using unsupported_chars_discarded [where c="CHR ''+''" and out="''a''" and stack="[]"
        and prev="Some (CHR ''a'')" and cs="''b''"] u
    by blast+
  have 5: "pf_step (''a'', [], Some (CHR ''a'')) (CHR ''.'') = Inr (''a'', ''.'', Some (CHR ''.''))"
    using unsupported_chars_discarded [where out="''a''" and stack="[]"
        and prev="Some (CHR ''a'')"]
    by simp
  have 2: "isl (to_postfix ''(a+))'') = isl (to_postfix (filter (\<lambda>x. \<not> unsupported x) ''(a+))''))"
    using unsupported_chars_discarded [where regex="''(a+))''"] by blast
  have 3: "filter isalnum ''ab'' = filter isalnum ''a+b''" "CHR ''+'' \<notin> set ''ab''"
    using unsupported_chars_discarded [where regex="''a+b''"] t u
    by (auto simp: unsupported_def)
  have 4: "build_nfa (filter (\<lambda>x. \<not> unsupported x) ''a+b.'') 0 = build_nfa ''a+b.'' 0"
    using unsupported_chars_discarded [where p="''a+b.''" and k=0] by blast
  have 6: "to_postfix ''a.b'' = to_postfix ''ab''"
    using unsupported_chars_discarded [where ?s1.0="''a''" and ?r1.0="Lit (CHR ''a'')"
        and ?s2.0="''b''" and ?r2.0="Lit (CHR ''b'')"] a b
    by simp
  from u 1 2 t 3 4 5 a b 6 show ?thesis by blast
qed

text \<open>
  Against claim C3 as stated: \<^verbatim>\<open>+\<close>, \<^verbatim>\<open>?\<close> and the space are dropped without any error,
  and \<^verbatim>\<open>a+b\<close> compiles.
\<close>

theorem unsupported_char_not_rejected:
  "to_postfix ''a+b'' = Inr ''ab'' \<and> to_postfix ''a?'' = Inr ''a'' \<and>
   to_postfix ''a b'' = Inr ''ab'' \<and> \<not> isl (regex_to_nfa ''a+b'' 0)"
  by (simp add: regex_to_nfa_def build_nfa_def to_postfix_def isalnum_def joins_def dom_precedence
      new_State_def)

section \<open>The compiled DFA recognizes the language of the regex\<close>

lemma regex_to_nfa_grammar:
  assumes "regex_alt regex r"
  shows "\<exists>n h k'. regex_to_nfa regex k = Inr (n, h, k') \<and>
           (\<forall>w. nfa_accepts h n w \<longleftrightarrow> w \<in> lang r)"
proof -
  have "literals_ok r" using grammar_wellformed(4) [OF assms] by (simp add: wellformed_def)
  from build_nfa_thompson [OF this, of k] show ?thesis
    by (simp add: regex_to_nfa_def to_postfix_grammar [OF assms])
qed

text \<open>
  Claim C1. For a regex of the supported grammar, denoting the expression r, the
  construction succeeds, and for every string w over the regex's alphabet the DFA accepts
  w iff the NFA accepts w iff w is in the language of r. The alphabet may be iterated in
  any order and the class counters may have any values.
\<close>

theorem regex_dfa_correct:
  assumes "regex_alt regex r" "set alphabet = extract_alphabet regex"
    "set w \<subseteq> extract_alphabet regex"
  shows "\<exists>n h k'. regex_to_nfa regex k = Inr (n, h, k') \<and>
           compile regex alphabet k d = Inr (fst (nfa_to_dfa h n alphabet d)) \<and>
           (dfa_accepts (fst (nfa_to_dfa h n alphabet d)) w \<longleftrightarrow> nfa_accepts h n w) \<and>
           (nfa_accepts h n w \<longleftrightarrow> w \<in> lang r)"
proof -
  from regex_to_nfa_grammar [OF assms(1), of k] obtain n h k' where
    n: "regex_to_nfa regex k = Inr (n, h, k')" and l: "\<And>w. nfa_accepts h n w \<longleftrightarrow> w \<in> lang r"
    by blast
  have "dfa_accepts (fst (nfa_to_dfa h n alphabet d)) w \<longleftrightarrow> nfa_accepts h n w"
    using assms(2,3) by (intro nfa_to_dfa_correct) simp
  moreover have "compile regex alphabet k d = Inr (fst (nfa_to_dfa h n alphabet d))"
    using n by (simp add: compile_def)
  ultimately show ?thesis using n l by blast
qed

lemma abb_grammar:
  "regex_alt ''(a|b)*abb''
     (Cat (Cat (Cat (Star (Alt (Lit (CHR ''a'')) (Lit (CHR ''b'')))) (Lit (CHR ''a'')))
          (Lit (CHR ''b''))) (Lit (CHR ''b'')))"
proof -
  have a: "regex_atom ''a'' (Lit (CHR ''a''))" by (rule literal) (simp add: isalnum_def)
  have b: "regex_atom ''b'' (Lit (CHR ''b''))" by (rule literal) (simp add: isalnum_def)
  have "regex_alt ''a|b'' (Alt (Lit (CHR ''a'')) (Lit (CHR ''b'')))"
    using union [OF cat [OF post [OF atom [OF a]]] post [OF atom [OF b]]] by simp
  then have "regex_atom ''(a|b)'' (Alt (Lit (CHR ''a'')) (Lit (CHR ''b'')))"
    using group by fastforce
  then have "regex_post ''(a|b)*'' (Star (Alt (Lit (CHR ''a'')) (Lit (CHR ''b''))))"
    using starred [OF atom] by fastforce
  then have "regex_cat ''(a|b)*a'' (Cat (Star (Alt (Lit (CHR ''a'')) (Lit (CHR ''b'')))) (Lit (CHR ''a'')))"
    using concat [OF post atom [OF a]] by fastforce
  then have "regex_cat ''(a|b)*ab''
      (Cat (Cat (Star (Alt (Lit (CHR ''a'')) (Lit (CHR ''b'')))) (Lit (CHR ''a''))) (Lit (CHR ''b'')))"
    using concat [OF _ atom [OF b]] by fastforce
  then have "regex_cat ''(a|b)*abb''
      (Cat (Cat (Cat (Star (Alt (Lit (CHR ''a'')) (Lit (CHR ''b'')))) (Lit (CHR ''a'')))
           (Lit (CHR ''b''))) (Lit (CHR ''b'')))"
    using concat [OF _ atom [OF b]] by fastforce
  then show ?thesis by (rule cat)
qed

lemma latin1_grammar:
  "regex_alt [CHR 0xE9, CHR ''|'', CHR ''a''] (Alt (Lit (CHR 0xE9)) (Lit (CHR ''a'')))"
proof -
  have e: "regex_atom [CHR 0xE9] (Lit (CHR 0xE9))" by (rule literal) (simp add: isalnum_def)
  have a: "regex_atom ''a'' (Lit (CHR ''a''))" by (rule literal) (simp add: isalnum_def)
  show ?thesis using union [OF cat [OF post [OF atom [OF e]]] post [OF atom [OF a]]] by simp
qed

theorem regex_dfa_correct_witness:
  "regex_alt ''(a|b)*abb''
     (Cat (Cat (Cat (Star (Alt (Lit (CHR ''a'')) (Lit (CHR ''b'')))) (Lit (CHR ''a'')))
          (Lit (CHR ''b''))) (Lit (CHR ''b''))) \<and>
   set ''ab'' = extract_alphabet ''(a|b)*abb'' \<and>
   set ''abb'' \<subseteq> extract_alphabet ''(a|b)*abb'' \<and>
   (recognizes (compile ''(a|b)*abb'' ''ab'' 0 0) ''abb'' \<longleftrightarrow>
    ''abb'' \<in> lang (Cat (Cat (Cat (Star (Alt (Lit (CHR ''a'')) (Lit (CHR ''b''))))
                 (Lit (CHR ''a''))) (Lit (CHR ''b''))) (Lit (CHR ''b'')))) \<and>
   regex_alt [CHR 0xE9, CHR ''|'', CHR ''a''] (Alt (Lit (CHR 0xE9)) (Lit (CHR ''a''))) \<and>
   set [CHR ''a'', CHR 0xE9] = extract_alphabet [CHR 0xE9, CHR ''|'', CHR ''a''] \<and>
   set [CHR 0xE9] \<subseteq> extract_alphabet [CHR 0xE9, CHR ''|'', CHR ''a''] \<and>
   recognizes (compile [CHR 0xE9, CHR ''|'', CHR ''a''] [CHR ''a'', CHR 0xE9] 0 0) [CHR 0xE9] \<and>
   [CHR 0xE9] \<in> lang (Alt (Lit (CHR 0xE9)) (Lit (CHR ''a'')))"
proof -
  have 2: "set ''ab'' = extract_alphabet ''(a|b)*abb''" by (simp add: abb_alphabet)
  have 3: "set ''abb'' \<subseteq> extract_alphabet ''(a|b)*abb''" by (simp add: abb_alphabet)
  from regex_dfa_correct [OF abb_grammar 2 3, of 0 0]
  have 4: "recognizes (compile ''(a|b)*abb'' ''ab'' 0 0) ''abb'' \<longleftrightarrow>
    ''abb'' \<in> lang (Cat (Cat (Cat (Star (Alt (Lit (CHR ''a'')) (Lit (CHR ''b''))))
                 (Lit (CHR ''a''))) (Lit (CHR ''b''))) (Lit (CHR ''b'')))"
    by (auto simp: recognizes_def)
  have 5: "set [CHR ''a'', CHR 0xE9] = extract_alphabet [CHR 0xE9, CHR ''|'', CHR ''a'']"
    and 6: "set [CHR 0xE9] \<subseteq> extract_alphabet [CHR 0xE9, CHR ''|'', CHR ''a'']"
    by (auto simp: latin1_alphabet)
  have 7: "[CHR 0xE9] \<in> lang (Alt (Lit (CHR 0xE9)) (Lit (CHR ''a'')))" by simp
  from regex_dfa_correct [OF latin1_grammar 5 6, of 0 0] 7
  have 8: "recognizes (compile [CHR 0xE9, CHR ''|'', CHR ''a''] [CHR ''a'', CHR 0xE9] 0 0) [CHR 0xE9]"
    by (auto simp: recognizes_def)
  show ?thesis using abb_grammar 2 3 4 latin1_grammar 5 6 7 8 by blast
qed

end
